theory Spec2Isabelle
  imports Complex_Main
begin

section \<open>Catmull-Clark subdivision: the mesh, the adjacency model and one pass\<close>

text \<open>
  A shallow embedding of \<^verbatim>\<open>src/src/catmull_clark.cpp\<close> and of the mesh types of
  \<^verbatim>\<open>src/include/catmull_clark/common.h\<close>.

  \<^item> A C++ \<^verbatim>\<open>int\<close> is an \<open>int\<close>, a \<^verbatim>\<open>Face::Index\<close> (\<^verbatim>\<open>uint32_t\<close>) and a
    \<^verbatim>\<open>size_t\<close> are a \<open>nat\<close>; container sizes are taken to stay below \<open>2^31\<close>, so no
    conversion wraps.
  \<^item> Fixed arrays (\<^verbatim>\<open>int vertices[4]\<close>, \<^verbatim>\<open>int faces[2]\<close>) are lists of that length, with
    the source's filler \<open>-1\<close> in the unused slots.
  \<^item> A \<^verbatim>\<open>std::unordered_map\<close> is a partial function: the code never iterates over one.
  \<^item> \<^verbatim>\<open>float\<close> is idealised to exact rational arithmetic: rounding, infinities, NaN and
    signed zeros are outside the model.
  \<^item> Struct fields keep their names; where two structs share a field name the field
    carries a prefix (\<open>vr_\<close> VertexRecord, \<open>er_\<close> EdgeRecord, \<open>fr_\<close> FaceRecord,
    \<open>m_\<close> Model).
\<close>

subsection \<open>Vectors\<close>

text \<open>
  Modelled from the spec: \<^verbatim>\<open>Vec3\<close> is \<^verbatim>\<open>agz::math::vec3f\<close>, a type of the external
  library agz-utils whose source is not part of the repository. The spec uses it as a
  3D position with componentwise sum, scaling by a scalar and division by a scalar
  (``arithmetic mean of its corner positions''), and a default-constructed vector as the
  zero the sums start from.
\<close>

type_synonym Vec3 = "rat \<times> rat \<times> rat"

definition vzero :: Vec3 where
  "vzero = (0, 0, 0)"

fun vadd :: "Vec3 \<Rightarrow> Vec3 \<Rightarrow> Vec3" where
  "vadd (a, b, c) (d, e, f) = (a + d, b + e, c + f)"

fun smul :: "rat \<Rightarrow> Vec3 \<Rightarrow> Vec3" where
  "smul k (a, b, c) = (k * a, k * b, k * c)"

fun vdiv :: "Vec3 \<Rightarrow> rat \<Rightarrow> Vec3" where
  "vdiv (a, b, c) k = (a / k, b / k, c / k)"

subsection \<open>The exchange mesh (common.h)\<close>

record Vertex =
  position :: Vec3

record Face =
  isQuad :: bool
  indices :: "nat list"

record Mesh =
  vertices :: "Vertex list"
  faces :: "Face list"

subsection \<open>The adjacency model\<close>

record VertexRecord =
  vr_position :: Vec3
  vr_edges :: "int list"
  vr_faces :: "int list"

record EdgeRecord =
  low_vertex :: int
  high_vertex :: int
  face_count :: int
  er_faces :: "int list"

record FaceRecord =
  fr_isQuad :: bool
  fr_vertices :: "int list"
  fr_edges :: "int list"

record Model =
  m_vertices :: "VertexRecord list"
  m_edges :: "EdgeRecord list"
  m_faces :: "FaceRecord list"
  positionToVertex :: "Vec3 \<rightharpoonup> int"
  vertexPairToEdge :: "(int \<times> int) \<rightharpoonup> int"

text \<open>
  What can end a call other than its result: the \<^verbatim>\<open>std::runtime_error\<close> of
  \<^verbatim>\<open>moveVertex\<close>, a failed \<^verbatim>\<open>assert\<close> (the process aborts), and an unchecked read
  outside a vector, for which C++ defines no behaviour (the code has no check there, so
  this is not a report of the program).
\<close>

datatype failure = TopologyError | AssertionFailure | UndefinedBehaviour

definition emptyModel :: Model where
  "emptyModel = \<lparr>m_vertices = [], m_edges = [], m_faces = [],
     positionToVertex = Map.empty, vertexPairToEdge = Map.empty\<rparr>"

text \<open>
  \<^verbatim>\<open>Model::moveVertex\<close>. The map entry of the old position is erased before the
  check; the pair returned is the exception thrown, if any, and the model as the call
  leaves it.
\<close>

definition moveVertex :: "Model \<Rightarrow> int \<Rightarrow> Vec3 \<Rightarrow> failure option \<times> Model" where
  "moveVertex model vertexIndex newPosition =
     (let oldPosition = vr_position (m_vertices model ! nat vertexIndex);
          model1 = model\<lparr>positionToVertex := (positionToVertex model)(oldPosition := None)\<rparr>
      in if positionToVertex model1 newPosition \<noteq> None then (Some TopologyError, model1)
         else (None,
           model1\<lparr>positionToVertex := (positionToVertex model1)(newPosition \<mapsto> vertexIndex),
                   m_vertices := (m_vertices model1)[nat vertexIndex :=
                     (m_vertices model1 ! nat vertexIndex)\<lparr>vr_position := newPosition\<rparr>]\<rparr>))"

text \<open>\<^verbatim>\<open>Model::getVertexIndex\<close>: the index of the position, inserted when absent.\<close>

definition getVertexIndex :: "Model \<Rightarrow> Vec3 \<Rightarrow> int \<times> Model" where
  "getVertexIndex model pos =
     (case positionToVertex model pos of
        Some i \<Rightarrow> (i, model)
      | None \<Rightarrow>
          (let ret = int (length (m_vertices model));
               newVertexRecord = \<lparr>vr_position = pos, vr_edges = [], vr_faces = []\<rparr>
           in (ret, model\<lparr>m_vertices := m_vertices model @ [newVertexRecord],
                           positionToVertex := (positionToVertex model)(pos \<mapsto> ret)\<rparr>)))"

text \<open>\<^verbatim>\<open>Model::getEdgeIndex\<close>: the index of the unordered pair, inserted when absent.\<close>

definition sortedPair :: "int \<times> int \<Rightarrow> int \<times> int" where
  "sortedPair vertexPair =
     (if fst vertexPair < snd vertexPair then vertexPair else (snd vertexPair, fst vertexPair))"

definition getEdgeIndex :: "Model \<Rightarrow> int \<times> int \<Rightarrow> int \<times> Model" where
  "getEdgeIndex model vertexPair =
     (let sortedVertexPair = sortedPair vertexPair
      in case vertexPairToEdge model sortedVertexPair of
           Some i \<Rightarrow> (i, model)
         | None \<Rightarrow>
             (let ret = int (length (m_edges model));
                  newEdgeRecord = \<lparr>low_vertex = fst sortedVertexPair,
                    high_vertex = snd sortedVertexPair, face_count = 0, er_faces = [-1, -1]\<rparr>
              in (ret, model\<lparr>m_edges := m_edges model @ [newEdgeRecord],
                    vertexPairToEdge := (vertexPairToEdge model)(sortedVertexPair \<mapsto> ret)\<rparr>)))"

subsection \<open>meshToModel\<close>

definition vertexCountOf :: "bool \<Rightarrow> nat" where
  "vertexCountOf q = (if q then 4 else 3)"

text \<open>
  The first loop of a face: corner \<open>i\<close> reads \<^verbatim>\<open>mesh.vertices[f.indices[i]]\<close>, an
  unchecked read, and resolves the position to a vertex index.
\<close>

fun resolveVertices :: "Mesh \<Rightarrow> Face \<Rightarrow> nat list \<Rightarrow> Model \<times> int list \<Rightarrow> failure + Model \<times> int list" where
  "resolveVertices mesh f [] (model, vertexIndices) = Inr (model, vertexIndices)"
| "resolveVertices mesh f (i # is) (model, vertexIndices) =
     (if indices f ! i < length (vertices mesh) then
        (let (ret, model1) = getVertexIndex model (position (vertices mesh ! (indices f ! i)))
         in resolveVertices mesh f is (model1, vertexIndices[i := ret]))
      else Inl UndefinedBehaviour)"

text \<open>\<^verbatim>\<open>model.vertices[v].edges.push_back(e)\<close> and \<^verbatim>\<open>model.vertices[v].faces.push_back(f)\<close>.\<close>

definition pushVertexEdge :: "int \<Rightarrow> int \<Rightarrow> Model \<Rightarrow> Model" where
  "pushVertexEdge v e model =
     model\<lparr>m_vertices := (m_vertices model)[nat v :=
       (m_vertices model ! nat v)\<lparr>vr_edges := vr_edges (m_vertices model ! nat v) @ [e]\<rparr>]\<rparr>"

definition pushVertexFace :: "int \<Rightarrow> int \<Rightarrow> Model \<Rightarrow> Model" where
  "pushVertexFace faceIndex v model =
     model\<lparr>m_vertices := (m_vertices model)[nat v :=
       (m_vertices model ! nat v)\<lparr>vr_faces := vr_faces (m_vertices model ! nat v) @ [faceIndex]\<rparr>]\<rparr>"

text \<open>The second loop: edge \<open>i\<close> joins corner \<open>i\<close> and corner \<open>(i + 1) mod vertexCount\<close>.\<close>

fun resolveEdges :: "nat \<Rightarrow> int list \<Rightarrow> nat list \<Rightarrow> Model \<times> int list \<Rightarrow> Model \<times> int list" where
  "resolveEdges vertexCount vertexIndices [] (model, edgeIndices) = (model, edgeIndices)"
| "resolveEdges vertexCount vertexIndices (i # is) (model, edgeIndices) =
     (let startVertex = vertexIndices ! i;
          endVertex = vertexIndices ! ((i + 1) mod vertexCount);
          (edgeIndex, model1) = getEdgeIndex model (startVertex, endVertex);
          model2 = pushVertexEdge startVertex edgeIndex model1;
          model3 = pushVertexEdge endVertex edgeIndex model2
      in resolveEdges vertexCount vertexIndices is (model3, edgeIndices[i := edgeIndex]))"

text \<open>
  The last loop: the face is written into the next free slot of each of its edges; an
  edge that has two faces already is skipped.
\<close>

definition addEdgeFace :: "int \<Rightarrow> int \<Rightarrow> Model \<Rightarrow> Model" where
  "addEdgeFace faceIndex e model =
     (let edgeRecord = m_edges model ! nat e
      in if face_count edgeRecord \<ge> 2 then model
         else model\<lparr>m_edges := (m_edges model)[nat e :=
           edgeRecord\<lparr>er_faces := (er_faces edgeRecord)[nat (face_count edgeRecord) := faceIndex],
                       face_count := face_count edgeRecord + 1\<rparr>]\<rparr>)"

text \<open>The body of the loop over the faces of the mesh.\<close>

definition addFace :: "Mesh \<Rightarrow> Face \<Rightarrow> Model \<Rightarrow> failure + Model" where
  "addFace mesh f model =
     (let vertexCount = vertexCountOf (isQuad f)
      in case resolveVertices mesh f [0..<vertexCount] (model, [-1, -1, -1, -1]) of
           Inl e \<Rightarrow> Inl e
         | Inr (model1, vertexIndices) \<Rightarrow>
             (let edgeCount = vertexCount;
                  (model2, edgeIndices) =
                     resolveEdges vertexCount vertexIndices [0..<edgeCount] (model1, [-1, -1, -1, -1]);
                  newFaceRecord = \<lparr>fr_isQuad = isQuad f,
                     fr_vertices = take vertexCount vertexIndices @ replicate (4 - vertexCount) (-1),
                     fr_edges = take edgeCount edgeIndices @ replicate (4 - edgeCount) (-1)\<rparr>;
                  faceIndex = int (length (m_faces model2));
                  model3 = model2\<lparr>m_faces := m_faces model2 @ [newFaceRecord]\<rparr>;
                  model4 = fold (pushVertexFace faceIndex) (take vertexCount vertexIndices) model3;
                  model5 = fold (addEdgeFace faceIndex) (take edgeCount edgeIndices) model4
              in Inr model5))"

fun addFaces :: "Mesh \<Rightarrow> Face list \<Rightarrow> Model \<Rightarrow> failure + Model" where
  "addFaces mesh [] model = Inr model"
| "addFaces mesh (f # fs) model =
     (case addFace mesh f model of Inl e \<Rightarrow> Inl e | Inr model1 \<Rightarrow> addFaces mesh fs model1)"

definition meshToModel :: "Mesh \<Rightarrow> failure + Model" where
  "meshToModel mesh = addFaces mesh (faces mesh) emptyModel"

subsection \<open>applyCatmullClarkSubdivisionOnce\<close>

text \<open>Face points: the sum of the corner positions, divided by the corner count.\<close>

definition facePoint :: "Model \<Rightarrow> FaceRecord \<Rightarrow> Vec3" where
  "facePoint oldModel f =
     (let vertexCount = vertexCountOf (fr_isQuad f);
          vertexSum = fold (\<lambda>j s. vadd s (vr_position (m_vertices oldModel ! nat (fr_vertices f ! j))))
                        [0..<vertexCount] vzero
      in vdiv vertexSum (of_nat vertexCount))"

definition computeFacePoints :: "Model \<Rightarrow> Vec3 list" where
  "computeFacePoints oldModel = map (facePoint oldModel) (m_faces oldModel)"

text \<open>Edge points: the test of the source is \<^verbatim>\<open>e.face_count != 2\<close>.\<close>

definition edgePoint :: "Model \<Rightarrow> Vec3 list \<Rightarrow> EdgeRecord \<Rightarrow> Vec3" where
  "edgePoint oldModel facePoints e =
     (if face_count e \<noteq> 2 then
        smul (1 / 2) (vadd (vr_position (m_vertices oldModel ! nat (low_vertex e)))
                           (vr_position (m_vertices oldModel ! nat (high_vertex e))))
      else
        smul (1 / 4) (vadd (vadd (vadd (vr_position (m_vertices oldModel ! nat (low_vertex e)))
                                       (vr_position (m_vertices oldModel ! nat (high_vertex e))))
                                 (facePoints ! nat (er_faces e ! 0)))
                           (facePoints ! nat (er_faces e ! 1))))"

definition computeEdgePoints :: "Model \<Rightarrow> Vec3 list \<Rightarrow> Vec3 list" where
  "computeEdgePoints oldModel facePoints = map (edgePoint oldModel facePoints) (m_edges oldModel)"

text \<open>
  The body of the third loop for the vertex record \<open>v\<close>: the two averages, taken from
  the face points and from the snapshot \<open>oldPositions\<close>, and the new position of vertex
  \<open>i\<close> made of them.
\<close>

definition avgFacePositionOf :: "Vec3 list \<Rightarrow> VertexRecord \<Rightarrow> Vec3" where
  "avgFacePositionOf facePoints v =
     (let n = int (length (vr_faces v))
      in vdiv (fold (\<lambda>j s. vadd s (facePoints ! nat (vr_faces v ! j))) [0..<nat n] vzero)
              (of_int n))"

definition avgEdgeMidOf :: "Model \<Rightarrow> Vec3 list \<Rightarrow> VertexRecord \<Rightarrow> Vec3" where
  "avgEdgeMidOf oldModel oldPositions v =
     vdiv (fold (\<lambda>edgeIndex s.
              let edge = m_edges oldModel ! nat edgeIndex
              in vadd s (smul (1 / 2) (vadd (oldPositions ! nat (low_vertex edge))
                                            (oldPositions ! nat (high_vertex edge)))))
             (vr_edges v) vzero)
          (of_nat (length (vr_edges v)))"

definition newPositionOf :: "Model \<Rightarrow> Vec3 list \<Rightarrow> Vec3 list \<Rightarrow> nat \<Rightarrow> Vec3" where
  "newPositionOf oldModel facePoints oldPositions i =
     (let v = m_vertices oldModel ! i;
          n = int (length (vr_faces v));
          m1 = of_int (n - 3) / of_int n;
          m2 = 1 / of_int n;
          m3 = 2 / of_int n;
          avgFacePosition = avgFacePositionOf facePoints v;
          avgEdgeMid = avgEdgeMidOf oldModel oldPositions v;
          newPosition = vadd (vadd (smul m1 (oldPositions ! i)) (smul m2 avgFacePosition))
                             (smul m3 avgEdgeMid)
      in newPosition)"

text \<open>The third loop; the exception of \<^verbatim>\<open>moveVertex\<close> leaves the loop and the function.\<close>

fun moveVertices :: "Vec3 list \<Rightarrow> Vec3 list \<Rightarrow> nat list \<Rightarrow> Model \<Rightarrow> failure + Model" where
  "moveVertices facePoints oldPositions [] oldModel = Inr oldModel"
| "moveVertices facePoints oldPositions (i # is) oldModel =
     (let newPosition = newPositionOf oldModel facePoints oldPositions i
      in case moveVertex oldModel (int i) newPosition of
           (Some e, _) \<Rightarrow> Inl e
         | (None, model1) \<Rightarrow> moveVertices facePoints oldPositions is model1)"

text \<open>
  The last loop. \<^verbatim>\<open>getEdgeIndex\<close> is the inserting lookup, so the model is threaded
  through the four (three) lookups of a face.
\<close>

definition mkFace :: "nat \<Rightarrow> nat \<Rightarrow> nat \<Rightarrow> nat \<Rightarrow> Face" where
  "mkFace a b c d = \<lparr>isQuad = True, indices = [a, b, c, d]\<rparr>"

definition mkVertex :: "Vec3 \<Rightarrow> Vertex" where
  "mkVertex p = \<lparr>position = p\<rparr>"

definition emitFace :: "Vec3 list \<Rightarrow> Vec3 list \<Rightarrow> nat \<Rightarrow> Model \<times> Mesh \<Rightarrow> Model \<times> Mesh" where
  "emitFace facePoints edgePoints fi = (\<lambda>(oldModel, newMesh).
     (let f = m_faces oldModel ! fi
      in if fr_isQuad f then
           (let va = vr_position (m_vertices oldModel ! nat (fr_vertices f ! 0));
                vb = vr_position (m_vertices oldModel ! nat (fr_vertices f ! 1));
                vc = vr_position (m_vertices oldModel ! nat (fr_vertices f ! 2));
                vd = vr_position (m_vertices oldModel ! nat (fr_vertices f ! 3));
                (iab, model1) = getEdgeIndex oldModel (fr_vertices f ! 0, fr_vertices f ! 1);
                eab = edgePoints ! nat iab;
                (ibc, model2) = getEdgeIndex model1 (fr_vertices f ! 1, fr_vertices f ! 2);
                ebc = edgePoints ! nat ibc;
                (icd, model3) = getEdgeIndex model2 (fr_vertices f ! 2, fr_vertices f ! 3);
                ecd = edgePoints ! nat icd;
                (ida, model4) = getEdgeIndex model3 (fr_vertices f ! 3, fr_vertices f ! 0);
                eda = edgePoints ! nat ida;
                fabcd = facePoints ! fi;
                aIndex = length (vertices newMesh);
                bIndex = aIndex + 1;
                cIndex = aIndex + 2;
                dIndex = aIndex + 3;
                eabIndex = aIndex + 4;
                ebcIndex = aIndex + 5;
                ecdIndex = aIndex + 6;
                edaIndex = aIndex + 7;
                fabcdIndex = aIndex + 8
            in (model4,
                newMesh\<lparr>vertices := vertices newMesh @
                           map mkVertex [va, vb, vc, vd, eab, ebc, ecd, eda, fabcd],
                         faces := faces newMesh @
                           [mkFace edaIndex aIndex eabIndex fabcdIndex,
                            mkFace eabIndex bIndex ebcIndex fabcdIndex,
                            mkFace ebcIndex cIndex ecdIndex fabcdIndex,
                            mkFace ecdIndex dIndex edaIndex fabcdIndex]\<rparr>))
         else
           (let va = vr_position (m_vertices oldModel ! nat (fr_vertices f ! 0));
                vb = vr_position (m_vertices oldModel ! nat (fr_vertices f ! 1));
                vc = vr_position (m_vertices oldModel ! nat (fr_vertices f ! 2));
                (iab, model1) = getEdgeIndex oldModel (fr_vertices f ! 0, fr_vertices f ! 1);
                eab = edgePoints ! nat iab;
                (ibc, model2) = getEdgeIndex model1 (fr_vertices f ! 1, fr_vertices f ! 2);
                ebc = edgePoints ! nat ibc;
                (ica, model3) = getEdgeIndex model2 (fr_vertices f ! 2, fr_vertices f ! 0);
                eca = edgePoints ! nat ica;
                fabc = facePoints ! fi;
                aIndex = length (vertices newMesh);
                bIndex = aIndex + 1;
                cIndex = aIndex + 2;
                eabIndex = aIndex + 3;
                ebcIndex = aIndex + 4;
                ecaIndex = aIndex + 5;
                fabcIndex = aIndex + 6
            in (model3,
                newMesh\<lparr>vertices := vertices newMesh @
                           map mkVertex [va, vb, vc, eab, ebc, eca, fabc],
                         faces := faces newMesh @
                           [mkFace ecaIndex aIndex eabIndex fabcIndex,
                            mkFace eabIndex bIndex ebcIndex fabcIndex,
                            mkFace ebcIndex cIndex ecaIndex fabcIndex]\<rparr>))))"

definition emptyMesh :: Mesh where
  "emptyMesh = \<lparr>vertices = [], faces = []\<rparr>"

definition applyCatmullClarkSubdivisionOnce :: "Model \<Rightarrow> failure + Mesh" where
  "applyCatmullClarkSubdivisionOnce oldModel =
     (let facePoints = computeFacePoints oldModel;
          edgePoints = computeEdgePoints oldModel facePoints;
          oldPositions = map vr_position (m_vertices oldModel)
      in case moveVertices facePoints oldPositions [0..<length (m_vertices oldModel)] oldModel of
           Inl e \<Rightarrow> Inl e
         | Inr movedModel \<Rightarrow>
             Inr (snd (fold (emitFace facePoints edgePoints) [0..<length (m_faces movedModel)]
                         (movedModel, emptyMesh))))"

subsection \<open>applyCatmullClarkSubdivision\<close>

text \<open>
  The loop \<^verbatim>\<open>for(int i = 0; i < iterationCount; ++i)\<close>; a failure of an iteration
  leaves it.
\<close>

function subdivisionLoop :: "int \<Rightarrow> int \<Rightarrow> Mesh \<Rightarrow> failure + Mesh" where
  "subdivisionLoop i iterationCount mesh =
     (if i < iterationCount then
        (case meshToModel mesh of
           Inl e \<Rightarrow> Inl e
         | Inr model \<Rightarrow>
             (case applyCatmullClarkSubdivisionOnce model of
                Inl e \<Rightarrow> Inl e
              | Inr mesh1 \<Rightarrow> subdivisionLoop (i + 1) iterationCount mesh1))
      else Inr mesh)"
  by pat_completeness auto
termination
  by (relation "measure (\<lambda>(i, iterationCount, mesh). nat (iterationCount - i))") auto

text \<open>
  \<^verbatim>\<open>assert(iterationCount >= 0)\<close> is compiled in or out by the build (\<^verbatim>\<open>NDEBUG\<close>);
  \<open>assertions\<close> says which. The mesh is copied (\<^verbatim>\<open>Mesh mesh = originalMesh\<close>) and the
  copy is returned by value.
\<close>

definition applyCatmullClarkSubdivision :: "bool \<Rightarrow> Mesh \<Rightarrow> int \<Rightarrow> failure + Mesh" where
  "applyCatmullClarkSubdivision assertions originalMesh iterationCount =
     (if assertions \<and> \<not> iterationCount \<ge> 0 then Inl AssertionFailure
      else (let mesh = originalMesh in subdivisionLoop 0 iterationCount mesh))"

subsection \<open>Concrete inputs\<close>

definition twoVertexModel :: Model where
  "twoVertexModel = \<lparr>m_vertices =
       [\<lparr>vr_position = (0, 0, 0), vr_edges = [], vr_faces = []\<rparr>,
        \<lparr>vr_position = (1, 0, 0), vr_edges = [], vr_faces = []\<rparr>],
     m_edges = [], m_faces = [],
     positionToVertex = [(0, 0, 0) \<mapsto> 0, (1, 0, 0) \<mapsto> 1],
     vertexPairToEdge = Map.empty\<rparr>"

definition oneTriangle :: Mesh where
  "oneTriangle = \<lparr>vertices = map mkVertex [(0, 0, 0), (1, 0, 0), (0, 1, 0)],
     faces = [\<lparr>isQuad = False, indices = [0, 1, 2, 0]\<rparr>]\<rparr>"

definition badIndexTriangle :: Mesh where
  "badIndexTriangle = \<lparr>vertices = map mkVertex [(0, 0, 0), (1, 0, 0), (0, 1, 0)],
     faces = [\<lparr>isQuad = False, indices = [0, 1, 3, 0]\<rparr>]\<rparr>"

text \<open>The unit square split along a diagonal, and the model the builder makes of it.\<close>

definition twoTriangles :: Mesh where
  "twoTriangles = \<lparr>vertices = map mkVertex [(0, 0, 0), (1, 0, 0), (1, 1, 0), (0, 1, 0)],
     faces = [\<lparr>isQuad = False, indices = [0, 1, 2, 0]\<rparr>,
              \<lparr>isQuad = False, indices = [0, 2, 3, 0]\<rparr>]\<rparr>"

definition twoTrianglesModel :: Model where
  "twoTrianglesModel = \<lparr>
     m_vertices =
       [\<lparr>vr_position = (0, 0, 0), vr_edges = [0, 2, 2, 4], vr_faces = [0, 1]\<rparr>,
        \<lparr>vr_position = (1, 0, 0), vr_edges = [0, 1], vr_faces = [0]\<rparr>,
        \<lparr>vr_position = (1, 1, 0), vr_edges = [1, 2, 2, 3], vr_faces = [0, 1]\<rparr>,
        \<lparr>vr_position = (0, 1, 0), vr_edges = [3, 4], vr_faces = [1]\<rparr>],
     m_edges =
       [\<lparr>low_vertex = 0, high_vertex = 1, face_count = 1, er_faces = [0, - 1]\<rparr>,
        \<lparr>low_vertex = 1, high_vertex = 2, face_count = 1, er_faces = [0, - 1]\<rparr>,
        \<lparr>low_vertex = 0, high_vertex = 2, face_count = 2, er_faces = [0, 1]\<rparr>,
        \<lparr>low_vertex = 2, high_vertex = 3, face_count = 1, er_faces = [1, - 1]\<rparr>,
        \<lparr>low_vertex = 0, high_vertex = 3, face_count = 1, er_faces = [1, - 1]\<rparr>],
     m_faces =
       [\<lparr>fr_isQuad = False, fr_vertices = [0, 1, 2, - 1], fr_edges = [0, 1, 2, - 1]\<rparr>,
        \<lparr>fr_isQuad = False, fr_vertices = [0, 2, 3, - 1], fr_edges = [2, 3, 4, - 1]\<rparr>],
     positionToVertex =
       [(0, 0, 0) \<mapsto> 0, (1, 0, 0) \<mapsto> 1, (1, 1, 0) \<mapsto> 2, (0, 1, 0) \<mapsto> 3],
     vertexPairToEdge =
       [(0, 1) \<mapsto> 0, (1, 2) \<mapsto> 1, (0, 2) \<mapsto> 2, (2, 3) \<mapsto> 3, (0, 3) \<mapsto> 4]\<rparr>"

section \<open>Invariants of the adjacency model\<close>

text \<open>
  A map from keys to indices is the index map of a list of keys when it sends exactly the
  entries of the list to their positions.
\<close>

definition index_map :: "('k \<rightharpoonup> int) \<Rightarrow> 'k list \<Rightarrow> bool" where
  "index_map mp keys \<longleftrightarrow>
     (\<forall>k i. mp k = Some i \<longleftrightarrow> 0 \<le> i \<and> nat i < length keys \<and> keys ! nat i = k)"

definition pos_inv :: "Model \<Rightarrow> bool" where
  "pos_inv model \<longleftrightarrow> index_map (positionToVertex model) (map vr_position (m_vertices model))"

definition endpoints :: "EdgeRecord \<Rightarrow> int \<times> int" where
  "endpoints e = (low_vertex e, high_vertex e)"

definition pair_inv :: "Model \<Rightarrow> bool" where
  "pair_inv model \<longleftrightarrow> index_map (vertexPairToEdge model) (map endpoints (m_edges model))"

definition corner_ok :: "Model \<Rightarrow> int \<Rightarrow> Vec3 \<Rightarrow> bool" where
  "corner_ok model v p \<longleftrightarrow>
     0 \<le> v \<and> nat v < length (m_vertices model) \<and> vr_position (m_vertices model ! nat v) = p"

definition fresh_records :: "VertexRecord list \<Rightarrow> bool" where
  "fresh_records new \<longleftrightarrow> list_all (\<lambda>v. vr_edges v = [] \<and> vr_faces v = []) new"

definition fresh_edges :: "EdgeRecord list \<Rightarrow> bool" where
  "fresh_edges new \<longleftrightarrow> list_all (\<lambda>e. face_count e = 0 \<and> er_faces e = [- 1, - 1]) new"

definition edge_ok :: "Model \<Rightarrow> int \<Rightarrow> int \<times> int \<Rightarrow> bool" where
  "edge_ok model e pr \<longleftrightarrow>
     0 \<le> e \<and> nat e < length (m_edges model) \<and> endpoints (m_edges model ! nat e) = sortedPair pr \<and>
     vertexPairToEdge model (sortedPair pr) = Some e"

definition vertex_ok :: "Model \<Rightarrow> int \<Rightarrow> bool" where
  "vertex_ok model v \<longleftrightarrow> 0 \<le> v \<and> nat v < length (m_vertices model)"

definition pushedEdges :: "nat \<Rightarrow> int list \<Rightarrow> int list \<Rightarrow> nat list \<Rightarrow> nat \<Rightarrow> int list" where
  "pushedEdges n vis eis is u =
     concat (map (\<lambda>i. (if int u = vis ! i then [eis ! i] else []) @
                       (if int u = vis ! ((i + 1) mod n) then [eis ! i] else [])) is)"

definition faceEdges :: "FaceRecord \<Rightarrow> int list" where
  "faceEdges f = take (vertexCountOf (fr_isQuad f)) (fr_edges f)"

definition faceVertices :: "FaceRecord \<Rightarrow> int list" where
  "faceVertices f = take (vertexCountOf (fr_isQuad f)) (fr_vertices f)"

text \<open>
  The incidences of an edge: the indices of the faces that list the edge in their edge
  arrays, in scan order, each face once for every side of it that lies on the edge.
\<close>

fun incidencesFrom :: "nat \<Rightarrow> FaceRecord list \<Rightarrow> int \<Rightarrow> int list" where
  "incidencesFrom fi [] e = []"
| "incidencesFrom fi (f # fs) e =
     replicate (count_list (faceEdges f) e) (int fi) @ incidencesFrom (Suc fi) fs e"

definition incidences :: "FaceRecord list \<Rightarrow> int \<Rightarrow> int list" where
  "incidences fs e = incidencesFrom 0 fs e"

text \<open>The body of the last loop of a face, on the edge record alone.\<close>

definition addFaceToEdge :: "int \<Rightarrow> EdgeRecord \<Rightarrow> EdgeRecord" where
  "addFaceToEdge faceIndex edgeRecord =
     (if face_count edgeRecord \<ge> 2 then edgeRecord
      else edgeRecord\<lparr>er_faces := (er_faces edgeRecord)[nat (face_count edgeRecord) := faceIndex],
                       face_count := face_count edgeRecord + 1\<rparr>)"

definition edge_ok_idx :: "Model \<Rightarrow> int \<Rightarrow> bool" where
  "edge_ok_idx model e \<longleftrightarrow> 0 \<le> e \<and> nat e < length (m_edges model)"

definition newFaceRecord :: "bool \<Rightarrow> int list \<Rightarrow> int list \<Rightarrow> FaceRecord" where
  "newFaceRecord q vis eis =
     \<lparr>fr_isQuad = q,
      fr_vertices = take (vertexCountOf q) vis @ replicate (4 - vertexCountOf q) (- 1),
      fr_edges = take (vertexCountOf q) eis @ replicate (4 - vertexCountOf q) (- 1)\<rparr>"

definition vertex_lists_inv :: "Model \<Rightarrow> bool" where
  "vertex_lists_inv model \<longleftrightarrow>
     list_all (\<lambda>v. length (vr_edges v) = 2 * length (vr_faces v)) (m_vertices model)"

definition face_edges_ok :: "Model \<Rightarrow> bool" where
  "face_edges_ok model \<longleftrightarrow>
     list_all (\<lambda>f. list_all (edge_ok_idx model) (faceEdges f)) (m_faces model)"

text \<open>
  What an edge record holds after the faces of \<open>occ\<close> were added to it one by one:
  the count saturates at 2 and the two slots keep the first two.
\<close>

definition slotsAfter :: "int list \<Rightarrow> int \<times> int list" where
  "slotsAfter occ = (int (min 2 (length occ)), take 2 (occ @ [- 1, - 1]))"

definition edge_faces_inv :: "Model \<Rightarrow> bool" where
  "edge_faces_inv model \<longleftrightarrow>
     (\<forall>k < length (m_edges model).
        incidences (m_faces model) (int k) \<noteq> [] \<and>
        (face_count (m_edges model ! k), er_faces (m_edges model ! k)) =
          slotsAfter (incidences (m_faces model) (int k)))"

definition face_pairs_inv :: "Model \<Rightarrow> bool" where
  "face_pairs_inv model \<longleftrightarrow>
     (\<forall>f \<in> set (m_faces model). \<forall>i < vertexCountOf (fr_isQuad f).
        vertexPairToEdge model
          (sortedPair (fr_vertices f ! i, fr_vertices f ! ((i + 1) mod vertexCountOf (fr_isQuad f))))
        = Some (fr_edges f ! i))"

definition builder_inv :: "Model \<Rightarrow> bool" where
  "builder_inv model \<longleftrightarrow>
     pos_inv model \<and> pair_inv model \<and> vertex_lists_inv model \<and> face_edges_ok model \<and>
     edge_faces_inv model \<and> face_pairs_inv model"



text \<open>
  The faces that share an edge, in scan order, each counted once.
\<close>

fun facesSharingFrom :: "nat \<Rightarrow> FaceRecord list \<Rightarrow> int \<Rightarrow> int list" where
  "facesSharingFrom fi [] e = []"
| "facesSharingFrom fi (f # fs) e =
     (if e \<in> set (faceEdges f) then [int fi] else []) @ facesSharingFrom (Suc fi) fs e"

definition facesSharing :: "FaceRecord list \<Rightarrow> int \<Rightarrow> int list" where
  "facesSharing fs e = facesSharingFrom 0 fs e"

definition degenerateFan :: Mesh where
  "degenerateFan = \<lparr>vertices = map mkVertex [(0, 0, 0), (1, 0, 0), (0, 1, 0), (0, 0, 1)],
     faces = [\<lparr>isQuad = False, indices = [0, 1, 0, 0]\<rparr>,
              \<lparr>isQuad = False, indices = [0, 1, 2, 0]\<rparr>,
              \<lparr>isQuad = False, indices = [0, 1, 3, 0]\<rparr>]\<rparr>"

definition builtModel :: "Mesh \<Rightarrow> Model" where
  "builtModel mesh = (case meshToModel mesh of Inr model \<Rightarrow> model | Inl e \<Rightarrow> emptyModel)"

definition threeTriangleFan :: Mesh where
  "threeTriangleFan = \<lparr>vertices = map mkVertex [(0, 0, 0), (1, 0, 0), (0, 1, 0), (0, 0, 1), (0, 0, - 1)],
     faces = [\<lparr>isQuad = False, indices = [0, 1, 2, 0]\<rparr>,
              \<lparr>isQuad = False, indices = [0, 1, 3, 0]\<rparr>,
              \<lparr>isQuad = False, indices = [0, 1, 4, 0]\<rparr>]\<rparr>"

definition vsum :: "Vec3 list \<Rightarrow> Vec3" where
  "vsum ps = fold (\<lambda>p s. vadd s p) ps vzero"

definition edgeMid :: "Model \<Rightarrow> Vec3 list \<Rightarrow> int \<Rightarrow> Vec3" where
  "edgeMid oldModel oldPositions edgeIndex =
     smul (1 / 2) (vadd (oldPositions ! nat (low_vertex (m_edges oldModel ! nat edgeIndex)))
                        (oldPositions ! nat (high_vertex (m_edges oldModel ! nat edgeIndex))))"

definition vx :: "Vec3 \<Rightarrow> rat" where "vx p = fst p"

definition vy :: "Vec3 \<Rightarrow> rat" where "vy p = fst (snd p)"

definition vz :: "Vec3 \<Rightarrow> rat" where "vz p = snd (snd p)"




definition collinearTriangle :: Mesh where
  "collinearTriangle = \<lparr>vertices = map mkVertex [(0, 0, 0), (5, 0, 0), (1, 0, 0)],
     faces = [\<lparr>isQuad = False, indices = [0, 1, 2, 0]\<rparr>]\<rparr>"

definition vmean :: "Vec3 list \<Rightarrow> Vec3" where
  "vmean ps = vdiv (vsum ps) (of_nat (length ps))"

text \<open>
  The repositioning rule, from the model before any move alone: \<open>n\<close> is the length of
  the incident-face list, the snapshot is the positions of that model, and both means are
  taken over the lists of the vertex record as they are, entry by entry.
\<close>

definition vertexRule :: "Model \<Rightarrow> nat \<Rightarrow> Vec3" where
  "vertexRule model i =
     (let v = m_vertices model ! i;
          n = of_nat (length (vr_faces v));
          snapshot = map vr_position (m_vertices model);
          facePoints = computeFacePoints model;
          avgFace = vmean (map (\<lambda>fi. facePoints ! nat fi) (vr_faces v));
          avgEdgeMidpoint = vmean (map (edgeMid model snapshot) (vr_edges v))
      in vadd (vadd (smul ((n - 3) / n) (snapshot ! i)) (smul (1 / n) avgFace))
              (smul (2 / n) avgEdgeMidpoint))"

text \<open>The rule in the words of the claim: each incident edge is counted once.\<close>

definition vertexRuleEdgesOnce :: "Model \<Rightarrow> nat \<Rightarrow> Vec3" where
  "vertexRuleEdgesOnce model i =
     (let v = m_vertices model ! i;
          n = of_nat (length (vr_faces v));
          snapshot = map vr_position (m_vertices model);
          facePoints = computeFacePoints model;
          avgFace = vmean (map (\<lambda>fi. facePoints ! nat fi) (vr_faces v));
          avgEdgeMidpoint = vmean (map (edgeMid model snapshot) (remdups (vr_edges v)))
      in vadd (vadd (smul ((n - 3) / n) (snapshot ! i)) (smul (1 / n) avgFace))
              (smul (2 / n) avgEdgeMidpoint))"

text \<open>The position of vertex \<open>i\<close> when the third loop of the step has run.\<close>

definition movedPosition :: "Model \<Rightarrow> nat \<Rightarrow> Vec3 option" where
  "movedPosition model i =
     (case moveVertices (computeFacePoints model) (map vr_position (m_vertices model))
             [0..<length (m_vertices model)] model of
        Inr moved \<Rightarrow> Some (vr_position (m_vertices moved ! i))
      | Inl e \<Rightarrow> None)"

definition tetrahedron :: Mesh where
  "tetrahedron = \<lparr>vertices = map mkVertex [(0, 0, 0), (1, 0, 0), (0, 1, 0), (0, 0, 1)],
     faces = [\<lparr>isQuad = False, indices = [0, 2, 1, 0]\<rparr>,
              \<lparr>isQuad = False, indices = [0, 1, 3, 0]\<rparr>,
              \<lparr>isQuad = False, indices = [0, 3, 2, 0]\<rparr>,
              \<lparr>isQuad = False, indices = [1, 2, 3, 0]\<rparr>]\<rparr>"

definition movedModel :: "Model \<Rightarrow> Model" where
  "movedModel model =
     (case moveVertices (computeFacePoints model) (map vr_position (m_vertices model))
             [0..<length (m_vertices model)] model of
        Inr moved \<Rightarrow> moved
      | Inl e \<Rightarrow> model)"

text \<open>
  What one face contributes to the output, in the words of the spec: the corners, then
  the edge points in cyclic order (edge \<open>i\<close> joins corner \<open>i\<close> and the next corner), then
  the face point; and one quad per corner, from the edge point before the corner over the
  corner and the edge point after it to the face point. \<open>base\<close> is the number of
  vertices emitted before the face, \<open>n\<close> its number of corners.
\<close>

definition faceOutputVertices :: "Model \<Rightarrow> Vec3 list \<Rightarrow> Vec3 list \<Rightarrow> nat \<Rightarrow> Vertex list" where
  "faceOutputVertices model facePoints edgePoints fi =
     (let f = m_faces model ! fi; n = vertexCountOf (fr_isQuad f)
      in map mkVertex
           (map (\<lambda>i. vr_position (m_vertices model ! nat (fr_vertices f ! i))) [0..<n] @
            map (\<lambda>i. edgePoints ! nat (fr_edges f ! i)) [0..<n] @
            [facePoints ! fi]))"

definition cornerQuad :: "nat \<Rightarrow> nat \<Rightarrow> nat \<Rightarrow> Face" where
  "cornerQuad base n i =
     \<lparr>isQuad = True,
      indices = [base + n + (i + n - 1) mod n, base + i, base + n + i, base + 2 * n]\<rparr>"

definition faceOutputFaces :: "nat \<Rightarrow> nat \<Rightarrow> Face list" where
  "faceOutputFaces base n = map (cornerQuad base n) [0..<n]"

fun outputFaces :: "nat \<Rightarrow> nat list \<Rightarrow> Face list" where
  "outputFaces base [] = []"
| "outputFaces base (n # ns) = faceOutputFaces base n @ outputFaces (base + (2 * n + 1)) ns"

definition cornerCounts :: "Model \<Rightarrow> nat list" where
  "cornerCounts model = map (\<lambda>f. vertexCountOf (fr_isQuad f)) (m_faces model)"

definition subdividedOnce :: "Model \<Rightarrow> Mesh" where
  "subdividedOnce model =
     (case applyCatmullClarkSubdivisionOnce model of Inr newMesh \<Rightarrow> newMesh | Inl e \<Rightarrow> emptyMesh)"

definition quadAndTriangle :: Mesh where
  "quadAndTriangle = \<lparr>vertices = map mkVertex [(0, 0, 0), (2, 0, 0), (3, 2, 0), (0, 1, 0), (4, 0, 0)],
     faces = [\<lparr>isQuad = True, indices = [0, 1, 2, 3]\<rparr>,
              \<lparr>isQuad = False, indices = [1, 4, 2, 0]\<rparr>]\<rparr>"

text \<open>
  What the builder reads of a mesh: for every face its kind and the positions of its
  corners. A mesh is well formed when every face has its four index slots and the indices
  of its corners are indices of the vertex list.
\<close>

definition cornerPositions :: "Mesh \<Rightarrow> (bool \<times> Vec3 list) list" where
  "cornerPositions mesh =
     map (\<lambda>f. (isQuad f,
                map (\<lambda>i. position (vertices mesh ! (indices f ! i))) [0..<vertexCountOf (isQuad f)]))
       (faces mesh)"

definition wellFormed :: "Mesh \<Rightarrow> bool" where
  "wellFormed mesh \<longleftrightarrow>
     list_all (\<lambda>f. length (indices f) = 4 \<and>
                   list_all (\<lambda>i. indices f ! i < length (vertices mesh)) [0..<vertexCountOf (isQuad f)])
       (faces mesh)"

text \<open>
  The equivalent mesh of the claim: the vertices that share a position are merged into one
  entry, and every face index is rewritten to the entry of its position.
\<close>

fun indexOf :: "'a list \<Rightarrow> 'a \<Rightarrow> nat" where
  "indexOf [] p = 0"
| "indexOf (x # xs) p = (if x = p then 0 else Suc (indexOf xs p))"

definition mergeCoincident :: "Mesh \<Rightarrow> Mesh" where
  "mergeCoincident mesh =
     (let ps = remdups (map position (vertices mesh))
      in \<lparr>vertices = map mkVertex ps,
          faces = map (\<lambda>f. f\<lparr>indices := map (\<lambda>j. indexOf ps (position (vertices mesh ! j))) (indices f)\<rparr>)
                    (faces mesh)\<rparr>)"

definition twoTrianglesSoup :: Mesh where
  "twoTrianglesSoup =
     \<lparr>vertices = map mkVertex [(0, 0, 0), (1, 0, 0), (1, 1, 0), (0, 0, 0), (1, 1, 0), (0, 1, 0)],
      faces = [\<lparr>isQuad = False, indices = [0, 1, 2, 0]\<rparr>,
               \<lparr>isQuad = False, indices = [3, 4, 5, 0]\<rparr>]\<rparr>"

definition sameCorners :: "Mesh \<Rightarrow> Mesh \<Rightarrow> Face \<Rightarrow> Face \<Rightarrow> bool" where
  "sameCorners mesh mesh' f f' \<longleftrightarrow>
     isQuad f = isQuad f' \<and>
     (\<forall>i < vertexCountOf (isQuad f). indices f ! i < length (vertices mesh) \<and>
        indices f' ! i < length (vertices mesh') \<and>
        position (vertices mesh ! (indices f ! i)) = position (vertices mesh' ! (indices f' ! i)))"


text \<open>
  The lists of a vertex, read off the face records: the faces that have the vertex as a
  corner, in scan order, once for every corner of the face at the vertex; and the edges
  pushed for the vertex by the sides of the faces, in scan order.
\<close>

fun vertexFacesFrom :: "nat \<Rightarrow> FaceRecord list \<Rightarrow> int \<Rightarrow> int list" where
  "vertexFacesFrom fi [] v = []"
| "vertexFacesFrom fi (f # fs) v =
     replicate (count_list (faceVertices f) v) (int fi) @ vertexFacesFrom (Suc fi) fs v"

definition vertexFaces :: "FaceRecord list \<Rightarrow> int \<Rightarrow> int list" where
  "vertexFaces fs v = vertexFacesFrom 0 fs v"

definition faceSides :: "FaceRecord \<Rightarrow> nat \<Rightarrow> int list" where
  "faceSides f u =
     pushedEdges (vertexCountOf (fr_isQuad f)) (fr_vertices f) (fr_edges f)
       [0..<vertexCountOf (fr_isQuad f)] u"

definition vertexEdges :: "FaceRecord list \<Rightarrow> nat \<Rightarrow> int list" where
  "vertexEdges fs u = concat (map (\<lambda>f. faceSides f u) fs)"

definition face_vertices_ok :: "Model \<Rightarrow> bool" where
  "face_vertices_ok model \<longleftrightarrow>
     list_all (\<lambda>f. length (fr_vertices f) = 4 \<and> length (fr_edges f) = 4 \<and>
                   list_all (vertex_ok model) (faceVertices f))
       (m_faces model)"

definition edge_ends_ok :: "Model \<Rightarrow> bool" where
  "edge_ends_ok model \<longleftrightarrow>
     list_all (\<lambda>e. vertex_ok model (low_vertex e) \<and> vertex_ok model (high_vertex e)) (m_edges model)"

definition vertex_lists_exact :: "Model \<Rightarrow> bool" where
  "vertex_lists_exact model \<longleftrightarrow>
     (\<forall>u < length (m_vertices model).
        vr_faces (m_vertices model ! u) = vertexFaces (m_faces model) (int u) \<and>
        vr_faces (m_vertices model ! u) \<noteq> [] \<and>
        vr_edges (m_vertices model ! u) = vertexEdges (m_faces model) u)"

definition reads_inv :: "Model \<Rightarrow> bool" where
  "reads_inv model \<longleftrightarrow>
     builder_inv model \<and> face_vertices_ok model \<and> edge_ends_ok model \<and> vertex_lists_exact model"

text \<open>
  The faces that have a vertex as a corner, in scan order, each counted once; and a mesh
  whose faces have pairwise distinct corner positions.
\<close>

fun facesAroundFrom :: "nat \<Rightarrow> FaceRecord list \<Rightarrow> int \<Rightarrow> int list" where
  "facesAroundFrom fi [] v = []"
| "facesAroundFrom fi (f # fs) v =
     (if v \<in> set (faceVertices f) then [int fi] else []) @ facesAroundFrom (Suc fi) fs v"

definition facesAround :: "FaceRecord list \<Rightarrow> int \<Rightarrow> int list" where
  "facesAround fs v = facesAroundFrom 0 fs v"

definition distinctCorners :: "Mesh \<Rightarrow> bool" where
  "distinctCorners mesh \<longleftrightarrow>
     list_all (\<lambda>f. distinct (map (\<lambda>i. position (vertices mesh ! (indices f ! i)))
                               [0..<vertexCountOf (isQuad f)]))
       (faces mesh)"

definition faces_distinct :: "Model \<Rightarrow> bool" where
  "faces_distinct model \<longleftrightarrow> list_all (\<lambda>f. distinct (faceVertices f)) (m_faces model)"


section \<open>Evaluation on concrete inputs\<close>

lemmas build_defs = meshToModel_def addFace_def vertexCountOf_def getVertexIndex_def
  getEdgeIndex_def sortedPair_def pushVertexEdge_def pushVertexFace_def addEdgeFace_def
  emptyModel_def mkVertex_def Let_def

lemma upt3: "[0..<3] = [0, 1, 2]"
  by (simp add: upt_rec)

lemma upt4: "[0..<4] = [0, 1, 2, 3]"
  by (simp add: upt_rec)

lemma meshToModel_twoTriangles: "meshToModel twoTriangles = Inr twoTrianglesModel"
  by (simp add: twoTriangles_def build_defs upt3 upt4 twoTrianglesModel_def)

section \<open>The iteration driver\<close>

declare subdivisionLoop.simps [simp del]

lemma subdivisionLoop_done: "\<not> i < n \<Longrightarrow> subdivisionLoop i n mesh = Inr mesh"
  by (simp add: subdivisionLoop.simps)

text \<open>
  Claim C4. With an iteration count of 0 the driver returns the input mesh: the same
  vertex positions and the same faces. Meshes are values here, as in the source, where the
  parameter is a \<^verbatim>\<open>const Mesh &\<close> that is copied and the copy is returned by value: the
  caller's mesh is not written.
\<close>

theorem zero_iterations_identity:
  "applyCatmullClarkSubdivision assertions originalMesh 0 = Inr originalMesh"
  by (simp add: applyCatmullClarkSubdivision_def subdivisionLoop_done)

section \<open>Unchecked preconditions\<close>

lemma resolveVertices_out_of_range:
  "\<exists>i \<in> set is. \<not> indices f ! i < length (vertices mesh) \<Longrightarrow>
   resolveVertices mesh f is (model, vertexIndices) = Inl UndefinedBehaviour"
proof (induction "is" arbitrary: model vertexIndices)
  case Nil
  then show ?case by simp
next
  case (Cons i "is")
  show ?case
  proof (cases "indices f ! i < length (vertices mesh)")
    case True
    with Cons.prems have "\<exists>i \<in> set is. \<not> indices f ! i < length (vertices mesh)" by auto
    from Cons.IH [OF this] True show ?thesis
      by (simp split: prod.splits)
  next
    case False
    then show ?thesis by simp
  qed
qed

lemma resolveVertices_failure:
  "resolveVertices mesh f is (model, vertexIndices) = Inl e \<Longrightarrow> e = UndefinedBehaviour"
  by (induction "is" arbitrary: model vertexIndices) (auto split: if_splits prod.splits)

lemma addFace_failure: "addFace mesh f model = Inl e \<Longrightarrow> e = UndefinedBehaviour"
  by (auto simp: addFace_def Let_def split: sum.splits prod.splits dest: resolveVertices_failure)

lemma addFace_out_of_range:
  "\<exists>i < vertexCountOf (isQuad f). \<not> indices f ! i < length (vertices mesh) \<Longrightarrow>
   addFace mesh f model = Inl UndefinedBehaviour"
proof -
  assume "\<exists>i < vertexCountOf (isQuad f). \<not> indices f ! i < length (vertices mesh)"
  then have "\<exists>i \<in> set [0..<vertexCountOf (isQuad f)]. \<not> indices f ! i < length (vertices mesh)"
    by auto
  from resolveVertices_out_of_range [OF this] show ?thesis
    by (simp add: addFace_def Let_def)
qed

lemma addFaces_failure: "addFaces mesh fs model = Inl e \<Longrightarrow> e = UndefinedBehaviour"
  by (induction fs arbitrary: model) (auto split: sum.splits dest: addFace_failure)

lemma addFaces_out_of_range:
  "\<exists>f \<in> set fs. \<exists>i < vertexCountOf (isQuad f). \<not> indices f ! i < length (vertices mesh) \<Longrightarrow>
   addFaces mesh fs model = Inl UndefinedBehaviour"
proof (induction fs arbitrary: model)
  case Nil
  then show ?case by simp
next
  case (Cons f fs)
  show ?case
  proof (cases "addFace mesh f model")
    case (Inl e)
    then show ?thesis using addFace_failure [OF Inl] by simp
  next
    case (Inr model1)
    have "\<not> (\<exists>i < vertexCountOf (isQuad f). \<not> indices f ! i < length (vertices mesh))"
      using addFace_out_of_range [of f mesh model] Inr by auto
    with Cons.prems
    have "\<exists>f \<in> set fs. \<exists>i < vertexCountOf (isQuad f). \<not> indices f ! i < length (vertices mesh)"
      by auto
    from Cons.IH [OF this] Inr show ?thesis by simp
  qed
qed

lemma meshToModel_out_of_range:
  "\<exists>f \<in> set (faces mesh). \<exists>i < vertexCountOf (isQuad f).
      \<not> indices f ! i < length (vertices mesh) \<Longrightarrow>
   meshToModel mesh = Inl UndefinedBehaviour"
  by (simp add: meshToModel_def addFaces_out_of_range)

text \<open>
  Claim C6, as the code has it. A negative iteration count is met by the assertion only:
  where assertions are compiled in, the call aborts before any work, which is not the
  topology error; where they are compiled out, the loop runs no iteration and the call
  returns the input mesh as for a count of 0. A face index outside the vertex list is not
  checked anywhere: the builder reaches the unchecked read of that corner, so the
  behaviour is undefined, and so is that of every call of the driver with a positive
  count.
\<close>

theorem precondition_violations_unchecked:
  "(iterationCount < 0 \<longrightarrow>
      applyCatmullClarkSubdivision True mesh iterationCount = Inl AssertionFailure \<and>
      applyCatmullClarkSubdivision False mesh iterationCount = Inr mesh) \<and>
   ((\<exists>f \<in> set (faces mesh). \<exists>i < vertexCountOf (isQuad f).
        \<not> indices f ! i < length (vertices mesh)) \<longrightarrow>
      meshToModel mesh = Inl UndefinedBehaviour \<and>
      (0 < iterationCount \<longrightarrow>
         applyCatmullClarkSubdivision assertions mesh iterationCount = Inl UndefinedBehaviour))"
proof (intro conjI impI)
  assume "iterationCount < 0"
  then show "applyCatmullClarkSubdivision True mesh iterationCount = Inl AssertionFailure"
    and "applyCatmullClarkSubdivision False mesh iterationCount = Inr mesh"
    by (simp_all add: applyCatmullClarkSubdivision_def subdivisionLoop_done)
next
  assume bad: "\<exists>f \<in> set (faces mesh). \<exists>i < vertexCountOf (isQuad f).
        \<not> indices f ! i < length (vertices mesh)"
  show ub: "meshToModel mesh = Inl UndefinedBehaviour"
    by (rule meshToModel_out_of_range [OF bad])
  assume "0 < iterationCount"
  then show "applyCatmullClarkSubdivision assertions mesh iterationCount = Inl UndefinedBehaviour"
    by (simp add: applyCatmullClarkSubdivision_def subdivisionLoop.simps [of 0] ub)
qed

theorem precondition_violations_unchecked_witness:
  "applyCatmullClarkSubdivision True oneTriangle (- 1) = Inl AssertionFailure \<and>
   applyCatmullClarkSubdivision False oneTriangle (- 1) = Inr oneTriangle \<and>
   meshToModel badIndexTriangle = Inl UndefinedBehaviour \<and>
   applyCatmullClarkSubdivision True badIndexTriangle 1 = Inl UndefinedBehaviour"
proof -
  have b: "\<exists>f \<in> set (faces badIndexTriangle). \<exists>i < vertexCountOf (isQuad f).
        \<not> indices f ! i < length (vertices badIndexTriangle)"
    by (auto simp: badIndexTriangle_def vertexCountOf_def intro!: exI [of _ 2])
  from precondition_violations_unchecked [of "- 1" oneTriangle True]
    precondition_violations_unchecked [of 1 badIndexTriangle True] b
  show ?thesis by simp
qed

text \<open>
  With assertions compiled out, a count of \<open>-1\<close> is answered with the input mesh, as a
  successful result.
\<close>

theorem negative_count_coerced_counterexample:
  "applyCatmullClarkSubdivision False oneTriangle (- 1) = Inr oneTriangle"
  by (simp add: applyCatmullClarkSubdivision_def subdivisionLoop_done)

section \<open>The two lookup maps\<close>



lemma index_mapI:
  assumes "\<And>k i. mp k = Some i \<Longrightarrow> 0 \<le> i \<and> nat i < length keys \<and> keys ! nat i = k"
    and "\<And>j. j < length keys \<Longrightarrow> mp (keys ! j) = Some (int j)"
  shows "index_map mp keys"
  unfolding index_map_def
proof (intro allI iffI)
  fix k i
  assume "mp k = Some i"
  then show "0 \<le> i \<and> nat i < length keys \<and> keys ! nat i = k"
    by (rule assms(1))
next
  fix k i
  assume "0 \<le> i \<and> nat i < length keys \<and> keys ! nat i = k"
  with assms(2) [of "nat i"] show "mp k = Some i" by auto
qed

lemma index_mapD:
  assumes "index_map mp keys" and "mp k = Some i"
  shows "0 \<le> i" and "nat i < length keys" and "keys ! nat i = k"
  using assms unfolding index_map_def by blast+

lemma index_map_lookup:
  assumes "index_map mp keys" and "j < length keys"
  shows "mp (keys ! j) = Some (int j)"
proof -
  have "0 \<le> int j \<and> nat (int j) < length keys \<and> keys ! nat (int j) = keys ! j"
    using assms(2) by simp
  with assms(1) show ?thesis unfolding index_map_def by blast
qed

lemma index_map_empty: "index_map Map.empty []"
  by (rule index_mapI) simp_all

lemma index_map_insert:
  assumes "index_map mp keys" and "mp k = None"
  shows "index_map (mp(k \<mapsto> int (length keys))) (keys @ [k])"
proof (rule index_mapI)
  fix q j
  assume l: "(mp(k \<mapsto> int (length keys))) q = Some j"
  show "0 \<le> j \<and> nat j < length (keys @ [k]) \<and> (keys @ [k]) ! nat j = q"
  proof (cases "q = k")
    case True
    with l show ?thesis by auto
  next
    case False
    with l have "mp q = Some j" by simp
    from index_mapD [OF assms(1) this] show ?thesis by (simp add: nth_append)
  qed
next
  fix j
  assume "j < length (keys @ [k])"
  then consider "j < length keys" | "j = length keys"
    by (auto simp: less_Suc_eq)
  then show "(mp(k \<mapsto> int (length keys))) ((keys @ [k]) ! j) = Some (int j)"
  proof cases
    case 1
    from index_map_lookup [OF assms(1) 1] assms(2) have "keys ! j \<noteq> k" by auto
    with index_map_lookup [OF assms(1) 1] 1 show ?thesis
      by (simp add: nth_append)
  next
    case 2
    then show ?thesis by simp
  qed
qed

lemma index_map_distinct:
  assumes "index_map mp keys"
  shows "distinct keys"
proof -
  have "i = j" if "i < length keys" "j < length keys" "keys ! i = keys ! j" for i j
  proof -
    have "Some (int i) = mp (keys ! i)"
      using index_map_lookup [OF assms that(1)] by simp
    also have "\<dots> = mp (keys ! j)" by (simp only: that(3))
    also have "\<dots> = Some (int j)" by (rule index_map_lookup [OF assms that(2)])
    finally show ?thesis by simp
  qed
  then show ?thesis by (auto simp: distinct_conv_nth)
qed

lemma map_update_same: "f y = f (xs ! i) \<Longrightarrow> map f (xs[i := y]) = map f xs"
  by (induction xs arbitrary: i) (auto split: nat.splits)

lemma pos_inv_emptyModel: "pos_inv emptyModel"
  by (simp add: pos_inv_def emptyModel_def index_map_empty)

lemma pair_inv_emptyModel: "pair_inv emptyModel"
  by (simp add: pair_inv_def emptyModel_def index_map_empty)

subsection \<open>getVertexIndex\<close>

lemma getVertexIndex_frame:
  assumes "getVertexIndex model p = (i, model')"
  shows "m_edges model' = m_edges model" "m_faces model' = m_faces model"
    "vertexPairToEdge model' = vertexPairToEdge model"
  using assms by (auto simp: getVertexIndex_def Let_def split: option.splits)

lemma corner_ok_append:
  "corner_ok model v p \<Longrightarrow> m_vertices model' = m_vertices model @ new \<Longrightarrow> corner_ok model' v p"
  by (simp add: corner_ok_def nth_append)

lemma getVertexIndex_append:
  assumes "getVertexIndex model p = (i, model')"
  shows "\<exists>new. m_vertices model' = m_vertices model @ new \<and> fresh_records new"
proof (cases "positionToVertex model p")
  case None
  with assms have "m_vertices model' = m_vertices model @ [\<lparr>vr_position = p, vr_edges = [], vr_faces = []\<rparr>]"
    by (auto simp: getVertexIndex_def Let_def)
  then show ?thesis by (simp add: fresh_records_def)
next
  case (Some a)
  with assms have "m_vertices model' = m_vertices model @ []"
    by (simp add: getVertexIndex_def)
  moreover have "fresh_records []" by (simp add: fresh_records_def)
  ultimately show ?thesis by blast
qed

lemma getVertexIndex_pos_inv:
  assumes "getVertexIndex model p = (i, model')" and "pos_inv model"
  shows "pos_inv model'" and "corner_ok model' i p"
proof -
  show "pos_inv model'"
  proof (cases "positionToVertex model p")
    case None
    with assms(1) have "positionToVertex model' =
        (positionToVertex model)(p \<mapsto> int (length (map vr_position (m_vertices model))))"
      and "map vr_position (m_vertices model') = map vr_position (m_vertices model) @ [p]"
      by (auto simp: getVertexIndex_def Let_def)
    with index_map_insert [OF assms(2) [unfolded pos_inv_def] None]
    show ?thesis by (simp add: pos_inv_def)
  next
    case (Some a)
    then show ?thesis using assms by (simp add: getVertexIndex_def)
  qed
  show "corner_ok model' i p"
  proof (cases "positionToVertex model p")
    case None
    with assms(1) show ?thesis
      by (auto simp: getVertexIndex_def Let_def corner_ok_def)
  next
    case (Some a)
    from index_mapD [OF assms(2) [unfolded pos_inv_def] Some] Some assms(1)
    show ?thesis by (simp add: getVertexIndex_def corner_ok_def)
  qed
qed

lemma resolveVertices_props:
  assumes "resolveVertices mesh f is (model, vis) = Inr (model', vis')"
    and "pos_inv model" and "distinct is" and "\<forall>i \<in> set is. i < length vis"
  shows "pos_inv model' \<and>
     m_edges model' = m_edges model \<and> m_faces model' = m_faces model \<and>
     vertexPairToEdge model' = vertexPairToEdge model \<and>
     (\<exists>new. m_vertices model' = m_vertices model @ new \<and> fresh_records new) \<and>
     length vis' = length vis \<and>
     (\<forall>j. j \<notin> set is \<longrightarrow> vis' ! j = vis ! j) \<and>
     (\<forall>i \<in> set is. corner_ok model' (vis' ! i) (position (vertices mesh ! (indices f ! i))))"
  using assms
proof (induction "is" arbitrary: model vis)
  case Nil
  then show ?case by (simp add: fresh_records_def)
next
  case (Cons i "is")
  let ?p = "position (vertices mesh ! (indices f ! i))"
  from Cons.prems(1) have inr: "indices f ! i < length (vertices mesh)"
    by (simp split: if_splits)
  obtain ret model1 where g: "getVertexIndex model ?p = (ret, model1)"
    by (cases "getVertexIndex model ?p")
  from Cons.prems(1) inr g
  have rest: "resolveVertices mesh f is (model1, vis[i := ret]) = Inr (model', vis')"
    by simp
  note p1 = getVertexIndex_pos_inv [OF g Cons.prems(2)]
  note f1 = getVertexIndex_frame [OF g]
  from getVertexIndex_append [OF g] obtain new1
    where n1: "m_vertices model1 = m_vertices model @ new1" "fresh_records new1" by blast
  have d: "distinct is" and ni: "i \<notin> set is" using Cons.prems(3) by simp_all
  have l: "\<forall>j \<in> set is. j < length (vis[i := ret])" and li: "i < length vis"
    using Cons.prems(4) by simp_all
  note ih = Cons.IH [OF rest p1(1) d l]
  from ih obtain new2
    where n2: "m_vertices model' = m_vertices model1 @ new2" "fresh_records new2" by blast
  have app: "m_vertices model' = m_vertices model @ (new1 @ new2)"
    and fr: "fresh_records (new1 @ new2)"
    using n1 n2 by (simp_all add: fresh_records_def)
  have head: "vis' ! i = ret" using ih ni li by simp
  have hd_ok: "corner_ok model' (vis' ! i) ?p"
    unfolding head using p1(2) n2(1) by (rule corner_ok_append)
  have keep: "\<forall>j. j \<notin> set (i # is) \<longrightarrow> vis' ! j = vis ! j"
    using ih by simp
  show ?case
    using ih f1 app fr hd_ok keep by (simp; blast)
qed

lemma getVertexIndex_cover:
  assumes "getVertexIndex model p = (i, model')"
  shows "\<forall>k. length (m_vertices model) \<le> k \<and> k < length (m_vertices model') \<longrightarrow> int k = i"
  using assms by (auto simp: getVertexIndex_def Let_def split: option.splits)

lemma resolveVertices_cover:
  assumes "resolveVertices mesh f is (model, vis) = Inr (model', vis')"
    and "distinct is" and "\<forall>i \<in> set is. i < length vis"
  shows "length (m_vertices model) \<le> length (m_vertices model') \<and>
     (\<forall>j. j \<notin> set is \<longrightarrow> vis' ! j = vis ! j) \<and>
     (\<forall>k. length (m_vertices model) \<le> k \<and> k < length (m_vertices model') \<longrightarrow>
        int k \<in> (\<lambda>i. vis' ! i) ` set is)"
  using assms
proof (induction "is" arbitrary: model vis)
  case Nil
  then show ?case by simp
next
  case (Cons i "is")
  let ?p = "position (vertices mesh ! (indices f ! i))"
  from Cons.prems(1) have inr: "indices f ! i < length (vertices mesh)"
    by (simp split: if_splits)
  obtain ret model1 where g: "getVertexIndex model ?p = (ret, model1)"
    by (cases "getVertexIndex model ?p")
  from Cons.prems(1) inr g
  have rest: "resolveVertices mesh f is (model1, vis[i := ret]) = Inr (model', vis')"
    by simp
  from getVertexIndex_append [OF g]
  have le1: "length (m_vertices model) \<le> length (m_vertices model1)" by auto
  note c1 = getVertexIndex_cover [OF g]
  have d: "distinct is" and ni: "i \<notin> set is" using Cons.prems(2) by simp_all
  have l: "\<forall>j \<in> set is. j < length (vis[i := ret])" and li: "i < length vis"
    using Cons.prems(3) by simp_all
  note ih = Cons.IH [OF rest d l]
  have head: "vis' ! i = ret" using ih ni li by simp
  have cover: "\<forall>k. length (m_vertices model) \<le> k \<and> k < length (m_vertices model') \<longrightarrow>
        int k \<in> (\<lambda>i. vis' ! i) ` set (i # is)"
  proof (intro allI impI)
    fix k
    assume k: "length (m_vertices model) \<le> k \<and> k < length (m_vertices model')"
    show "int k \<in> (\<lambda>i. vis' ! i) ` set (i # is)"
    proof (cases "k < length (m_vertices model1)")
      case True
      with k c1 have "int k = ret" by simp
      with head show ?thesis by simp
    next
      case False
      with k ih have "int k \<in> (\<lambda>i. vis' ! i) ` set is" by simp
      then show ?thesis by auto
    qed
  qed
  from ih le1 cover show ?case by simp
qed

subsection \<open>getEdgeIndex\<close>

lemma getEdgeIndex_frame:
  assumes "getEdgeIndex model pr = (e, model')"
  shows "m_vertices model' = m_vertices model" "m_faces model' = m_faces model"
    "positionToVertex model' = positionToVertex model"
  using assms by (auto simp: getEdgeIndex_def Let_def split: option.splits)

lemma getEdgeIndex_append:
  assumes "getEdgeIndex model pr = (e, model')"
  shows "\<exists>new. m_edges model' = m_edges model @ new \<and> fresh_edges new \<and>
           (\<forall>k. length (m_edges model) \<le> k \<and> k < length (m_edges model') \<longrightarrow> int k = e)"
proof (cases "vertexPairToEdge model (sortedPair pr)")
  case None
  with assms have "m_edges model' = m_edges model @
      [\<lparr>low_vertex = fst (sortedPair pr), high_vertex = snd (sortedPair pr),
        face_count = 0, er_faces = [- 1, - 1]\<rparr>]" and "e = int (length (m_edges model))"
    by (auto simp: getEdgeIndex_def Let_def)
  then show ?thesis by (auto simp: fresh_edges_def)
next
  case (Some a)
  with assms have "m_edges model' = m_edges model @ []"
    by (simp add: getEdgeIndex_def)
  moreover have "fresh_edges []" by (simp add: fresh_edges_def)
  ultimately show ?thesis by auto
qed

lemma getEdgeIndex_pair_inv:
  assumes "getEdgeIndex model pr = (e, model')" and "pair_inv model"
  shows "pair_inv model'" and "edge_ok model' e pr"
proof -
  show "pair_inv model'"
  proof (cases "vertexPairToEdge model (sortedPair pr)")
    case None
    with assms(1) have "vertexPairToEdge model' =
        (vertexPairToEdge model)(sortedPair pr \<mapsto> int (length (map endpoints (m_edges model))))"
      and "map endpoints (m_edges model') = map endpoints (m_edges model) @ [sortedPair pr]"
      by (auto simp: getEdgeIndex_def Let_def endpoints_def)
    with index_map_insert [OF assms(2) [unfolded pair_inv_def] None]
    show ?thesis by (simp add: pair_inv_def)
  next
    case (Some a)
    then show ?thesis using assms by (simp add: getEdgeIndex_def)
  qed
  show "edge_ok model' e pr"
  proof (cases "vertexPairToEdge model (sortedPair pr)")
    case None
    with assms(1) show ?thesis
      by (auto simp: getEdgeIndex_def Let_def edge_ok_def endpoints_def)
  next
    case (Some a)
    from index_mapD [OF assms(2) [unfolded pair_inv_def] Some] Some assms(1)
    show ?thesis by (simp add: getEdgeIndex_def edge_ok_def)
  qed
qed

lemma edge_ok_append:
  assumes "edge_ok model e pr" and "m_edges model' = m_edges model @ new" and "pair_inv model'"
  shows "edge_ok model' e pr"
proof -
  from assms(1) have v: "0 \<le> e" "nat e < length (m_edges model)"
    and ep: "endpoints (m_edges model ! nat e) = sortedPair pr"
    by (simp_all add: edge_ok_def)
  have lt: "nat e < length (map endpoints (m_edges model'))"
    using v assms(2) by simp
  have "map endpoints (m_edges model') ! nat e = sortedPair pr"
    using v ep assms(2) by (simp add: nth_append)
  with index_map_lookup [OF assms(3) [unfolded pair_inv_def] lt]
  have "vertexPairToEdge model' (sortedPair pr) = Some e" using v by simp
  then show ?thesis using v ep assms(2) by (simp add: edge_ok_def nth_append)
qed

subsection \<open>pushVertexEdge\<close>

lemma pushVertexEdge_frame [simp]:
  "m_edges (pushVertexEdge v e model) = m_edges model"
  "m_faces (pushVertexEdge v e model) = m_faces model"
  "positionToVertex (pushVertexEdge v e model) = positionToVertex model"
  "vertexPairToEdge (pushVertexEdge v e model) = vertexPairToEdge model"
  "length (m_vertices (pushVertexEdge v e model)) = length (m_vertices model)"
  "map vr_position (m_vertices (pushVertexEdge v e model)) = map vr_position (m_vertices model)"
  "map vr_faces (m_vertices (pushVertexEdge v e model)) = map vr_faces (m_vertices model)"
  by (simp_all add: pushVertexEdge_def map_update_same)

lemma pushVertexEdge_edges:
  assumes "vertex_ok model v" and "u < length (m_vertices model)"
  shows "vr_edges (m_vertices (pushVertexEdge v e model) ! u) =
           vr_edges (m_vertices model ! u) @ (if int u = v then [e] else [])"
  using assms by (auto simp: pushVertexEdge_def vertex_ok_def nth_list_update)

lemma vertex_ok_pushVertexEdge [simp]:
  "vertex_ok (pushVertexEdge v e model) u = vertex_ok model u"
  by (simp add: vertex_ok_def)

lemma pair_inv_pushVertexEdge [simp]: "pair_inv (pushVertexEdge v e model) = pair_inv model"
  by (simp add: pair_inv_def)

lemma pos_inv_pushVertexEdge [simp]: "pos_inv (pushVertexEdge v e model) = pos_inv model"
  by (simp add: pos_inv_def)

lemma edge_ok_pushVertexEdge [simp]: "edge_ok (pushVertexEdge v e model) k pr = edge_ok model k pr"
  by (simp add: edge_ok_def)

lemma resolveEdges_Cons:
  "resolveEdges n vis (i # is) (model, eis) =
     (case getEdgeIndex model (vis ! i, vis ! ((i + 1) mod n)) of
        (e, model1) \<Rightarrow>
          resolveEdges n vis is
            (pushVertexEdge (vis ! ((i + 1) mod n)) e (pushVertexEdge (vis ! i) e model1),
             eis[i := e]))"
  by (simp add: Let_def split: prod.splits)

lemma resolveEdges_props:
  assumes "resolveEdges n vis is (model, eis) = (model', eis')"
    and "pair_inv model" and "distinct is" and "\<forall>i \<in> set is. i < length eis"
    and "\<forall>i \<in> set is. vertex_ok model (vis ! i) \<and> vertex_ok model (vis ! ((i + 1) mod n))"
  shows "pair_inv model' \<and>
     m_faces model' = m_faces model \<and> positionToVertex model' = positionToVertex model \<and>
     map vr_position (m_vertices model') = map vr_position (m_vertices model) \<and>
     map vr_faces (m_vertices model') = map vr_faces (m_vertices model) \<and>
     (\<exists>new. m_edges model' = m_edges model @ new \<and> fresh_edges new) \<and>
     length eis' = length eis \<and>
     (\<forall>j. j \<notin> set is \<longrightarrow> eis' ! j = eis ! j) \<and>
     (\<forall>i \<in> set is. edge_ok model' (eis' ! i) (vis ! i, vis ! ((i + 1) mod n))) \<and>
     (\<forall>k. length (m_edges model) \<le> k \<and> k < length (m_edges model') \<longrightarrow>
        int k \<in> (\<lambda>i. eis' ! i) ` set is) \<and>
     (\<forall>u < length (m_vertices model).
        vr_edges (m_vertices model' ! u) =
          vr_edges (m_vertices model ! u) @ pushedEdges n vis eis' is u)"
  using assms
proof (induction "is" arbitrary: model eis)
  case Nil
  then show ?case by (simp add: fresh_edges_def pushedEdges_def)
next
  case (Cons i "is")
  let ?s = "vis ! i" and ?t = "vis ! ((i + 1) mod n)"
  obtain e model1 where g: "getEdgeIndex model (?s, ?t) = (e, model1)"
    by (cases "getEdgeIndex model (?s, ?t)")
  define model3 where "model3 = pushVertexEdge ?t e (pushVertexEdge ?s e model1)"
  from Cons.prems(1) g
  have rest: "resolveEdges n vis is (model3, eis[i := e]) = (model', eis')"
    by (simp add: resolveEdges_Cons model3_def)
  note p1 = getEdgeIndex_pair_inv [OF g Cons.prems(2)]
  note f1 = getEdgeIndex_frame [OF g]
  from getEdgeIndex_append [OF g] obtain new1
    where n1: "m_edges model1 = m_edges model @ new1" "fresh_edges new1"
      and c1: "\<forall>k. length (m_edges model) \<le> k \<and> k < length (m_edges model1) \<longrightarrow> int k = e"
    by blast
  have e3: "m_edges model3 = m_edges model1" by (simp add: model3_def)
  have pi3: "pair_inv model3" using p1(1) by (simp add: model3_def)
  have d: "distinct is" and ni: "i \<notin> set is" using Cons.prems(3) by simp_all
  have l: "\<forall>j \<in> set is. j < length (eis[i := e])" and li: "i < length eis"
    using Cons.prems(4) by simp_all
  have vok: "vertex_ok model1 u = vertex_ok model u" for u
    by (simp add: vertex_ok_def f1)
  have v3: "\<forall>j \<in> set is. vertex_ok model3 (vis ! j) \<and> vertex_ok model3 (vis ! ((j + 1) mod n))"
    using Cons.prems(5) by (simp add: model3_def vok)
  have vs: "vertex_ok model1 ?s" and vt: "vertex_ok model1 ?t"
    using Cons.prems(5) by (simp_all add: vok)
  note ih = Cons.IH [OF rest pi3 d l v3]
  from ih obtain new2
    where n2: "m_edges model' = m_edges model3 @ new2" "fresh_edges new2" by blast
  have app: "m_edges model' = m_edges model @ (new1 @ new2)"
    and fr: "fresh_edges (new1 @ new2)"
    using n1 n2 e3 by (simp_all add: fresh_edges_def)
  have pi': "pair_inv model'" using ih by simp
  have head: "eis' ! i = e" using ih ni li by simp
  have "edge_ok model3 e (?s, ?t)" using p1(2) by (simp add: model3_def)
  then have hd_ok: "edge_ok model' (eis' ! i) (?s, ?t)"
    unfolding head using n2(1) pi' by (rule edge_ok_append)
  have keep: "\<forall>j. j \<notin> set (i # is) \<longrightarrow> eis' ! j = eis ! j"
    using ih by simp
  have cover: "\<forall>k. length (m_edges model) \<le> k \<and> k < length (m_edges model') \<longrightarrow>
        int k \<in> (\<lambda>i. eis' ! i) ` set (i # is)"
  proof (intro allI impI)
    fix k
    assume k: "length (m_edges model) \<le> k \<and> k < length (m_edges model')"
    show "int k \<in> (\<lambda>i. eis' ! i) ` set (i # is)"
    proof (cases "k < length (m_edges model1)")
      case True
      with k c1 have "int k = e" by simp
      with head show ?thesis by simp
    next
      case False
      with k e3 ih have "int k \<in> (\<lambda>i. eis' ! i) ` set is" by simp
      then show ?thesis by auto
    qed
  qed
  have frames: "m_faces model3 = m_faces model" "positionToVertex model3 = positionToVertex model"
    "map vr_position (m_vertices model3) = map vr_position (m_vertices model)"
    "map vr_faces (m_vertices model3) = map vr_faces (m_vertices model)"
    "length (m_vertices model3) = length (m_vertices model)"
    by (simp_all add: model3_def f1)
  have edges: "\<forall>u < length (m_vertices model).
        vr_edges (m_vertices model' ! u) =
          vr_edges (m_vertices model ! u) @ pushedEdges n vis eis' (i # is) u"
  proof (intro allI impI)
    fix u
    assume u: "u < length (m_vertices model)"
    have u1: "u < length (m_vertices model1)" using u by (simp add: f1)
    have "vr_edges (m_vertices model3 ! u) =
        vr_edges (m_vertices model ! u) @ (if int u = ?s then [e] else []) @
          (if int u = ?t then [e] else [])"
      unfolding model3_def using u1 vs vt
      by (simp add: pushVertexEdge_edges f1)
    moreover have "vr_edges (m_vertices model' ! u) =
        vr_edges (m_vertices model3 ! u) @ pushedEdges n vis eis' is u"
      using ih u frames(5) by simp
    ultimately show "vr_edges (m_vertices model' ! u) =
          vr_edges (m_vertices model ! u) @ pushedEdges n vis eis' (i # is) u"
      by (simp add: pushedEdges_def head)
  qed
  show ?case
    using ih frames(1-4) app fr hd_ok keep cover edges pi' by (simp; blast)
qed

subsection \<open>pushVertexFace\<close>

lemma pushVertexFace_frame [simp]:
  "m_edges (pushVertexFace fi v model) = m_edges model"
  "m_faces (pushVertexFace fi v model) = m_faces model"
  "positionToVertex (pushVertexFace fi v model) = positionToVertex model"
  "vertexPairToEdge (pushVertexFace fi v model) = vertexPairToEdge model"
  "length (m_vertices (pushVertexFace fi v model)) = length (m_vertices model)"
  "map vr_position (m_vertices (pushVertexFace fi v model)) = map vr_position (m_vertices model)"
  "map vr_edges (m_vertices (pushVertexFace fi v model)) = map vr_edges (m_vertices model)"
  by (simp_all add: pushVertexFace_def map_update_same)

lemma pushVertexFace_faces:
  assumes "vertex_ok model v" and "u < length (m_vertices model)"
  shows "vr_faces (m_vertices (pushVertexFace fi v model) ! u) =
           vr_faces (m_vertices model ! u) @ (if int u = v then [fi] else [])"
  using assms by (auto simp: pushVertexFace_def vertex_ok_def nth_list_update)

lemma vertex_ok_pushVertexFace [simp]:
  "vertex_ok (pushVertexFace fi v model) u = vertex_ok model u"
  by (simp add: vertex_ok_def)

lemma fold_pushVertexFace:
  assumes "\<forall>v \<in> set vs. vertex_ok model v"
  shows "m_edges (fold (pushVertexFace fi) vs model) = m_edges model \<and>
     m_faces (fold (pushVertexFace fi) vs model) = m_faces model \<and>
     positionToVertex (fold (pushVertexFace fi) vs model) = positionToVertex model \<and>
     vertexPairToEdge (fold (pushVertexFace fi) vs model) = vertexPairToEdge model \<and>
     length (m_vertices (fold (pushVertexFace fi) vs model)) = length (m_vertices model) \<and>
     map vr_position (m_vertices (fold (pushVertexFace fi) vs model)) =
       map vr_position (m_vertices model) \<and>
     map vr_edges (m_vertices (fold (pushVertexFace fi) vs model)) =
       map vr_edges (m_vertices model) \<and>
     (\<forall>u < length (m_vertices model).
        vr_faces (m_vertices (fold (pushVertexFace fi) vs model) ! u) =
          vr_faces (m_vertices model ! u) @ replicate (count_list vs (int u)) fi)"
  using assms
proof (induction vs arbitrary: model)
  case Nil
  then show ?case by simp
next
  case (Cons v vs)
  have ok: "\<forall>w \<in> set vs. vertex_ok (pushVertexFace fi v model) w"
    using Cons.prems by simp
  note ih = Cons.IH [OF ok]
  have "vr_faces (m_vertices (fold (pushVertexFace fi) (v # vs) model) ! u) =
          vr_faces (m_vertices model ! u) @ replicate (count_list (v # vs) (int u)) fi"
    if u: "u < length (m_vertices model)" for u
  proof -
    have "vr_faces (m_vertices (pushVertexFace fi v model) ! u) =
           vr_faces (m_vertices model ! u) @ (if int u = v then [fi] else [])"
      using Cons.prems u by (simp add: pushVertexFace_faces)
    with ih u show ?thesis
      by (auto simp: replicate_append_same)
  qed
  with ih show ?case by simp
qed

subsection \<open>addEdgeFace\<close>

lemma addEdgeFace_eq:
  "addEdgeFace fi e model =
     model\<lparr>m_edges := (m_edges model)[nat e := addFaceToEdge fi (m_edges model ! nat e)]\<rparr>"
  by (simp add: addEdgeFace_def addFaceToEdge_def Let_def)

lemma endpoints_addFaceToEdge [simp]: "endpoints (addFaceToEdge fi er) = endpoints er"
  by (simp add: endpoints_def addFaceToEdge_def)

lemma addEdgeFace_frame [simp]:
  "m_vertices (addEdgeFace fi e model) = m_vertices model"
  "m_faces (addEdgeFace fi e model) = m_faces model"
  "positionToVertex (addEdgeFace fi e model) = positionToVertex model"
  "vertexPairToEdge (addEdgeFace fi e model) = vertexPairToEdge model"
  "length (m_edges (addEdgeFace fi e model)) = length (m_edges model)"
  "map endpoints (m_edges (addEdgeFace fi e model)) = map endpoints (m_edges model)"
  by (simp_all add: addEdgeFace_eq map_update_same)

lemma edge_ok_idx_addEdgeFace [simp]:
  "edge_ok_idx (addEdgeFace fi e model) k = edge_ok_idx model k"
  by (simp add: edge_ok_idx_def)

lemma addEdgeFace_edge:
  assumes "edge_ok_idx model e" and "k < length (m_edges model)"
  shows "m_edges (addEdgeFace fi e model) ! k =
           (if int k = e then addFaceToEdge fi (m_edges model ! k) else m_edges model ! k)"
  using assms by (auto simp: addEdgeFace_eq edge_ok_idx_def nth_list_update)

lemma fold_addEdgeFace:
  assumes "\<forall>e \<in> set es. edge_ok_idx model e"
  shows "m_vertices (fold (addEdgeFace fi) es model) = m_vertices model \<and>
     m_faces (fold (addEdgeFace fi) es model) = m_faces model \<and>
     positionToVertex (fold (addEdgeFace fi) es model) = positionToVertex model \<and>
     vertexPairToEdge (fold (addEdgeFace fi) es model) = vertexPairToEdge model \<and>
     length (m_edges (fold (addEdgeFace fi) es model)) = length (m_edges model) \<and>
     map endpoints (m_edges (fold (addEdgeFace fi) es model)) = map endpoints (m_edges model) \<and>
     (\<forall>k < length (m_edges model).
        m_edges (fold (addEdgeFace fi) es model) ! k =
          (addFaceToEdge fi ^^ count_list es (int k)) (m_edges model ! k))"
  using assms
proof (induction es arbitrary: model)
  case Nil
  then show ?case by simp
next
  case (Cons e es)
  have ok: "\<forall>w \<in> set es. edge_ok_idx (addEdgeFace fi e model) w"
    using Cons.prems by simp
  note ih = Cons.IH [OF ok]
  have "m_edges (fold (addEdgeFace fi) (e # es) model) ! k =
          (addFaceToEdge fi ^^ count_list (e # es) (int k)) (m_edges model ! k)"
    if k: "k < length (m_edges model)" for k
  proof -
    have "m_edges (addEdgeFace fi e model) ! k =
           (if int k = e then addFaceToEdge fi (m_edges model ! k) else m_edges model ! k)"
      using Cons.prems k by (simp add: addEdgeFace_edge)
    with ih k show ?thesis
      by (auto simp: funpow_swap1)
  qed
  with ih show ?case by simp
qed

lemma vertexCountOf_le4: "vertexCountOf q \<le> 4" and vertexCountOf_pos: "0 < vertexCountOf q"
  by (simp_all add: vertexCountOf_def)

lemma set_take_conv_nth: "n \<le> length xs \<Longrightarrow> set (take n xs) = (!) xs ` {0..<n}"
  by (simp add: nth_image)

lemma pos_inv_cong:
  "positionToVertex m' = positionToVertex m \<Longrightarrow>
   map vr_position (m_vertices m') = map vr_position (m_vertices m) \<Longrightarrow> pos_inv m' = pos_inv m"
  by (simp add: pos_inv_def)

lemma pair_inv_cong:
  "vertexPairToEdge m' = vertexPairToEdge m \<Longrightarrow>
   map endpoints (m_edges m') = map endpoints (m_edges m) \<Longrightarrow> pair_inv m' = pair_inv m"
  by (simp add: pair_inv_def)

lemma corner_ok_cong:
  assumes "map vr_position (m_vertices m') = map vr_position (m_vertices m)"
  shows "corner_ok m' v p = corner_ok m v p"
proof -
  have len: "length (m_vertices m') = length (m_vertices m)"
    using assms by (rule map_eq_imp_length_eq)
  have "vr_position (m_vertices m' ! j) = vr_position (m_vertices m ! j)"
    if "j < length (m_vertices m)" for j
    using that len arg_cong [OF assms, of "\<lambda>xs. xs ! j"] by simp
  then show ?thesis
    unfolding corner_ok_def len by (simp cong: conj_cong)
qed

lemma edge_ok_cong:
  assumes "map endpoints (m_edges m') = map endpoints (m_edges m)"
    and "vertexPairToEdge m' = vertexPairToEdge m"
  shows "edge_ok m' e pr = edge_ok m e pr"
proof -
  have len: "length (m_edges m') = length (m_edges m)"
    using assms(1) by (rule map_eq_imp_length_eq)
  have "endpoints (m_edges m' ! j) = endpoints (m_edges m ! j)"
    if "j < length (m_edges m)" for j
    using that len arg_cong [OF assms(1), of "\<lambda>xs. xs ! j"] by simp
  then show ?thesis
    unfolding edge_ok_def len assms(2) by (simp cong: conj_cong)
qed

lemma map_nth_eq:
  assumes "map f xs = map f ys" and "j < length ys"
  shows "f (xs ! j) = f (ys ! j)"
proof -
  have "length xs = length ys" using assms(1) by (rule map_eq_imp_length_eq)
  with assms(2) arg_cong [OF assms(1), of "\<lambda>zs. zs ! j"] show ?thesis by simp
qed

lemma addFace_cases:
  assumes "addFace mesh f model = Inr model'" and "pos_inv model" and "pair_inv model"
  obtains vis eis new_vs new_es where
    "length vis = 4" and "length eis = 4"
    and "pos_inv model'" and "pair_inv model'"
    and "\<forall>i < vertexCountOf (isQuad f).
           corner_ok model' (vis ! i) (position (vertices mesh ! (indices f ! i)))"
    and "\<forall>i < vertexCountOf (isQuad f).
           edge_ok model' (eis ! i) (vis ! i, vis ! ((i + 1) mod vertexCountOf (isQuad f)))"
    and "m_faces model' = m_faces model @ [newFaceRecord (isQuad f) vis eis]"
    and "length (m_vertices model') = length (m_vertices model) + length new_vs"
    and "fresh_records new_vs"
    and "\<forall>u < length (m_vertices model').
           vr_position (m_vertices model' ! u) = vr_position ((m_vertices model @ new_vs) ! u) \<and>
           vr_edges (m_vertices model' ! u) =
             vr_edges ((m_vertices model @ new_vs) ! u) @
               pushedEdges (vertexCountOf (isQuad f)) vis eis [0..<vertexCountOf (isQuad f)] u \<and>
           vr_faces (m_vertices model' ! u) =
             vr_faces ((m_vertices model @ new_vs) ! u) @
               replicate (count_list (take (vertexCountOf (isQuad f)) vis) (int u))
                 (int (length (m_faces model)))"
    and "length (m_edges model') = length (m_edges model) + length new_es"
    and "fresh_edges new_es"
    and "\<forall>k < length (m_edges model').
           m_edges model' ! k =
             (addFaceToEdge (int (length (m_faces model))) ^^
                count_list (take (vertexCountOf (isQuad f)) eis) (int k))
               ((m_edges model @ new_es) ! k)"
    and "\<forall>k. length (m_edges model) \<le> k \<and> k < length (m_edges model') \<longrightarrow>
           int k \<in> set (take (vertexCountOf (isQuad f)) eis)"
    and "\<forall>k. length (m_vertices model) \<le> k \<and> k < length (m_vertices model') \<longrightarrow>
           int k \<in> set (take (vertexCountOf (isQuad f)) vis)"
proof -
  define n where "n = vertexCountOf (isQuad f)"
  have n4: "n \<le> 4" and n0: "0 < n" by (simp_all add: n_def vertexCountOf_def)
  let ?init = "[- 1, - 1, - 1, - 1] :: int list"
  from assms(1) obtain m1 vis
    where rv: "resolveVertices mesh f [0..<n] (model, ?init) = Inr (m1, vis)"
    by (auto simp: addFace_def n_def Let_def split: sum.splits)
  obtain m2 eis where re: "resolveEdges n vis [0..<n] (m1, ?init) = (m2, eis)"
    by (cases "resolveEdges n vis [0..<n] (m1, ?init)")
  define fi where "fi = int (length (m_faces m2))"
  define m3 where "m3 = m2\<lparr>m_faces := m_faces m2 @ [newFaceRecord (isQuad f) vis eis]\<rparr>"
  define m4 where "m4 = fold (pushVertexFace fi) (take n vis) m3"
  define m5 where "m5 = fold (addEdgeFace fi) (take n eis) m4"
  have m5: "model' = m5"
    using assms(1) rv re
    by (simp add: addFace_def n_def [symmetric] Let_def m5_def m4_def m3_def fi_def
        newFaceRecord_def)
  \<comment> \<open>the first loop\<close>
  have "\<forall>i \<in> set [0..<n]. i < length ?init" using n4 by simp
  note p1 = resolveVertices_props [OF rv assms(2) distinct_upt this]
  from p1 obtain new_vs
    where v1: "m_vertices m1 = m_vertices model @ new_vs" and fr1: "fresh_records new_vs"
    by blast
  have lv: "length vis = 4" using p1 by simp
  have c1: "\<forall>i < n. corner_ok m1 (vis ! i) (position (vertices mesh ! (indices f ! i)))"
    using p1 by simp
  have pi1: "pair_inv m1"
    using assms(3) p1 by (simp add: pair_inv_def)
  \<comment> \<open>the second loop\<close>
  have vok1: "vertex_ok m1 (vis ! i)" if "i < n" for i
    using c1 that by (simp add: corner_ok_def vertex_ok_def)
  have "\<forall>i \<in> set [0..<n]. i < length ?init" using n4 by simp
  moreover
  have "\<forall>i \<in> set [0..<n]. vertex_ok m1 (vis ! i) \<and> vertex_ok m1 (vis ! ((i + 1) mod n))"
    using vok1 n0 by simp
  ultimately have p2: "pair_inv m2 \<and>
     m_faces m2 = m_faces m1 \<and> positionToVertex m2 = positionToVertex m1 \<and>
     map vr_position (m_vertices m2) = map vr_position (m_vertices m1) \<and>
     map vr_faces (m_vertices m2) = map vr_faces (m_vertices m1) \<and>
     (\<exists>new. m_edges m2 = m_edges m1 @ new \<and> fresh_edges new) \<and>
     length eis = length ?init \<and>
     (\<forall>j. j \<notin> set [0..<n] \<longrightarrow> eis ! j = ?init ! j) \<and>
     (\<forall>i \<in> set [0..<n]. edge_ok m2 (eis ! i) (vis ! i, vis ! ((i + 1) mod n))) \<and>
     (\<forall>k. length (m_edges m1) \<le> k \<and> k < length (m_edges m2) \<longrightarrow>
        int k \<in> (\<lambda>i. eis ! i) ` set [0..<n]) \<and>
     (\<forall>u < length (m_vertices m1).
        vr_edges (m_vertices m2 ! u) =
          vr_edges (m_vertices m1 ! u) @ pushedEdges n vis eis [0..<n] u)"
    by (rule resolveEdges_props [OF re pi1 distinct_upt])
  from p2 obtain new_es
    where e2: "m_edges m2 = m_edges m1 @ new_es" and fr2: "fresh_edges new_es"
    by blast
  have le: "length eis = 4" using p2 by simp
  have len2: "length (m_vertices m2) = length (m_vertices m1)"
    using p2 map_eq_imp_length_eq by blast
  have e1: "m_edges m1 = m_edges model" and f1: "m_faces m1 = m_faces model"
    using p1 by simp_all
  have fi: "fi = int (length (m_faces model))"
    using p2 f1 by (simp add: fi_def)
  \<comment> \<open>the face record and the fourth loop\<close>
  have len3: "length (m_vertices m3) = length (m_vertices m1)"
    by (simp add: m3_def len2)
  have tv: "set (take n vis) = (!) vis ` {0..<n}"
    using lv n4 by (simp add: set_take_conv_nth)
  have te: "set (take n eis) = (!) eis ` {0..<n}"
    using le n4 by (simp add: set_take_conv_nth)
  have "\<forall>v \<in> set (take n vis). vertex_ok m3 v"
    using vok1 by (auto simp: tv vertex_ok_def len3)
  note p4 = fold_pushVertexFace [OF this, of fi, folded m4_def]
  \<comment> \<open>the last loop\<close>
  have len4e: "m_edges m4 = m_edges m2"
    using p4 by (simp add: m3_def)
  have "\<forall>e \<in> set (take n eis). edge_ok_idx m4 e"
    using p2 by (auto simp: te edge_ok_idx_def edge_ok_def len4e)
  note p5 = fold_addEdgeFace [OF this, of fi, folded m5_def]
  \<comment> \<open>the model as a whole\<close>
  have pos5: "map vr_position (m_vertices m5) = map vr_position (m_vertices m1)"
    using p5 p4 p2 by (simp add: m3_def)
  have ptv5: "positionToVertex m5 = positionToVertex m1"
    using p5 p4 p2 by (simp add: m3_def)
  have ep5: "map endpoints (m_edges m5) = map endpoints (m_edges m2)"
    using p5 len4e by simp
  have vpe5: "vertexPairToEdge m5 = vertexPairToEdge m2"
    using p5 p4 by (simp add: m3_def)
  have len5: "length (m_vertices m5) = length (m_vertices m1)"
    using pos5 by (rule map_eq_imp_length_eq)
  have len5e: "length (m_edges m5) = length (m_edges m2)"
    using ep5 by (rule map_eq_imp_length_eq)
  have posinv: "pos_inv m5"
    using p1 by (simp add: pos_inv_cong [OF ptv5 pos5])
  have pairinv: "pair_inv m5"
    using p2 by (simp add: pair_inv_cong [OF vpe5 ep5])
  have corners: "\<forall>i < n. corner_ok m5 (vis ! i) (position (vertices mesh ! (indices f ! i)))"
    using c1 by (simp add: corner_ok_cong [OF pos5])
  have edges: "\<forall>i < n. edge_ok m5 (eis ! i) (vis ! i, vis ! ((i + 1) mod n))"
    using p2 by (simp add: edge_ok_cong [OF ep5 vpe5])
  have faces: "m_faces m5 = m_faces model @ [newFaceRecord (isQuad f) vis eis]"
    using p5 p4 p2 f1 by (simp add: m3_def)
  have vlen: "length (m_vertices m5) = length (m_vertices model) + length new_vs"
    using len5 v1 by simp
  have vrec: "vr_position (m_vertices m5 ! u) = vr_position ((m_vertices model @ new_vs) ! u) \<and>
           vr_edges (m_vertices m5 ! u) =
             vr_edges ((m_vertices model @ new_vs) ! u) @ pushedEdges n vis eis [0..<n] u \<and>
           vr_faces (m_vertices m5 ! u) =
             vr_faces ((m_vertices model @ new_vs) ! u) @
               replicate (count_list (take n vis) (int u)) (int (length (m_faces model)))"
    if u: "u < length (m_vertices m5)" for u
  proof -
    have u1: "u < length (m_vertices m1)" using u len5 by simp
    have u3: "u < length (m_vertices m3)" using u1 len3 by simp
    have u4: "u < length (m_vertices m4)" using u3 p4 by simp
    have a: "vr_position (m_vertices m5 ! u) = vr_position (m_vertices m1 ! u)"
      by (rule map_nth_eq [OF pos5 u1])
    have "vr_edges (m_vertices m4 ! u) = vr_edges (m_vertices m3 ! u)"
      using p4 u3 by (auto intro: map_nth_eq)
    then have b: "vr_edges (m_vertices m5 ! u) =
        vr_edges (m_vertices m1 ! u) @ pushedEdges n vis eis [0..<n] u"
      using p5 p2 u1 by (simp add: m3_def)
    have "vr_faces (m_vertices m2 ! u) = vr_faces (m_vertices m1 ! u)"
      using p2 u1 by (auto intro: map_nth_eq)
    then have c: "vr_faces (m_vertices m5 ! u) =
        vr_faces (m_vertices m1 ! u) @ replicate (count_list (take n vis) (int u)) fi"
      using p5 p4 u3 by (simp add: m3_def)
    from a b c show ?thesis by (simp add: v1 fi)
  qed
  have elen: "length (m_edges m5) = length (m_edges model) + length new_es"
    using len5e e2 e1 by simp
  have erec: "\<forall>k < length (m_edges m5).
           m_edges m5 ! k =
             (addFaceToEdge (int (length (m_faces model))) ^^ count_list (take n eis) (int k))
               ((m_edges model @ new_es) ! k)"
    using p5 len5e len4e e2 e1 fi by simp
  have cover: "\<forall>k. length (m_edges model) \<le> k \<and> k < length (m_edges m5) \<longrightarrow>
           int k \<in> set (take n eis)"
    using p2 e1 len5e by (auto simp: te)
  have "\<forall>i \<in> set [0..<n]. i < length ?init" using n4 by simp
  note pc = resolveVertices_cover [OF rv distinct_upt this]
  have vcover: "\<forall>k. length (m_vertices model) \<le> k \<and> k < length (m_vertices m5) \<longrightarrow>
           int k \<in> set (take n vis)"
    using pc len5 by (simp add: tv)
  show thesis
    by (rule that [OF lv le posinv [folded m5] pairinv [folded m5] corners [folded m5, unfolded n_def]
          edges [folded m5, unfolded n_def] faces [folded m5] vlen [folded m5] fr1
          _ elen [folded m5] fr2 erec [folded m5, unfolded n_def] cover [folded m5, unfolded n_def]
          vcover [folded m5, unfolded n_def]])
      (use vrec in \<open>simp add: m5 n_def\<close>)
qed

subsection \<open>The lists of a vertex\<close>

lemma length4E:
  assumes "length xs = 4"
  obtains a b c d where "xs = [a, b, c, d]"
  using assms by (auto simp: length_Suc_conv eval_nat_numeral)

lemma length_pushedEdges:
  assumes "length vis = 4"
  shows "length (pushedEdges (vertexCountOf q) vis eis [0..<vertexCountOf q] u) =
           2 * count_list (take (vertexCountOf q) vis) (int u)"
proof -
  from assms obtain a b c d where vis: "vis = [a, b, c, d]" by (rule length4E)
  show ?thesis
    by (cases q) (simp_all add: vertexCountOf_def pushedEdges_def upt3 upt4 vis)
qed

lemma fresh_records_nth:
  "fresh_records new \<Longrightarrow> j < length new \<Longrightarrow> vr_edges (new ! j) = [] \<and> vr_faces (new ! j) = []"
  by (simp add: fresh_records_def list_all_length)

lemma addFace_vertex_lists_inv:
  assumes "addFace mesh f model = Inr model'" and "pos_inv model" and "pair_inv model"
    and "vertex_lists_inv model"
  shows "vertex_lists_inv model'"
proof -
  from assms(1-3) obtain vis eis new_vs new_es where
    lv: "length vis = 4"
    and vlen: "length (m_vertices model') = length (m_vertices model) + length new_vs"
    and fr: "fresh_records new_vs"
    and vrec: "\<forall>u < length (m_vertices model').
           vr_position (m_vertices model' ! u) = vr_position ((m_vertices model @ new_vs) ! u) \<and>
           vr_edges (m_vertices model' ! u) =
             vr_edges ((m_vertices model @ new_vs) ! u) @
               pushedEdges (vertexCountOf (isQuad f)) vis eis [0..<vertexCountOf (isQuad f)] u \<and>
           vr_faces (m_vertices model' ! u) =
             vr_faces ((m_vertices model @ new_vs) ! u) @
               replicate (count_list (take (vertexCountOf (isQuad f)) vis) (int u))
                 (int (length (m_faces model)))"
    by (rule addFace_cases)
  have "length (vr_edges (m_vertices model' ! u)) = 2 * length (vr_faces (m_vertices model' ! u))"
    if u: "u < length (m_vertices model')" for u
  proof -
    have base: "length (vr_edges ((m_vertices model @ new_vs) ! u)) =
        2 * length (vr_faces ((m_vertices model @ new_vs) ! u))"
    proof (cases "u < length (m_vertices model)")
      case True
      with assms(4) show ?thesis
        by (simp add: vertex_lists_inv_def list_all_length nth_append)
    next
      case False
      with u vlen have "u - length (m_vertices model) < length new_vs" by simp
      from fresh_records_nth [OF fr this] False show ?thesis
        by (simp add: nth_append)
    qed
    from vrec u base show ?thesis
      by (simp add: length_pushedEdges [OF lv])
  qed
  then show ?thesis
    by (simp add: vertex_lists_inv_def list_all_length)
qed

subsection \<open>The faces of an edge\<close>

lemma incidencesFrom_append:
  "incidencesFrom b (fs @ [f]) e =
     incidencesFrom b fs e @ replicate (count_list (faceEdges f) e) (int (b + length fs))"
  by (induction fs arbitrary: b) simp_all

lemma incidences_snoc:
  "incidences (fs @ [f]) e =
     incidences fs e @ replicate (count_list (faceEdges f) e) (int (length fs))"
  by (simp add: incidences_def incidencesFrom_append)

lemma incidencesFrom_none:
  "\<forall>f \<in> set fs. e \<notin> set (faceEdges f) \<Longrightarrow> incidencesFrom b fs e = []"
  by (induction fs arbitrary: b) (simp_all add: count_list_0_iff)

lemma faceEdges_newFaceRecord:
  "length eis = 4 \<Longrightarrow> faceEdges (newFaceRecord q vis eis) = take (vertexCountOf q) eis"
  by (simp add: faceEdges_def newFaceRecord_def vertexCountOf_def)

lemma newFaceRecord_nth:
  assumes "length vis = 4" and "length eis = 4" and "i < vertexCountOf q"
  shows "fr_vertices (newFaceRecord q vis eis) ! i = vis ! i"
    and "fr_edges (newFaceRecord q vis eis) ! i = eis ! i"
  using assms by (auto simp: newFaceRecord_def nth_append vertexCountOf_def)

lemma fr_isQuad_newFaceRecord [simp]: "fr_isQuad (newFaceRecord q vis eis) = q"
  by (simp add: newFaceRecord_def)

lemma slotsAfter_step:
  assumes "(face_count er, er_faces er) = slotsAfter occ"
  shows "(face_count (addFaceToEdge fi er), er_faces (addFaceToEdge fi er)) = slotsAfter (occ @ [fi])"
proof -
  consider "occ = []" | a where "occ = [a]" | a b rest where "occ = a # b # rest"
    by (cases occ rule: list.exhaust; cases "tl occ" rule: list.exhaust; auto)
  then show ?thesis
  proof cases
    case 1
    with assms show ?thesis by (simp add: slotsAfter_def addFaceToEdge_def)
  next
    case 2
    with assms show ?thesis by (simp add: slotsAfter_def addFaceToEdge_def)
  next
    case 3
    with assms show ?thesis by (simp add: slotsAfter_def addFaceToEdge_def)
  qed
qed

lemma slotsAfter_funpow:
  assumes "(face_count er, er_faces er) = slotsAfter occ"
  shows "(face_count ((addFaceToEdge fi ^^ c) er), er_faces ((addFaceToEdge fi ^^ c) er)) =
           slotsAfter (occ @ replicate c fi)"
  using assms
proof (induction c arbitrary: er occ)
  case 0
  then show ?case by simp
next
  case (Suc c)
  from Suc.IH [OF slotsAfter_step [OF Suc.prems]] show ?case
    by (simp add: funpow_swap1 replicate_app_Cons_same)
qed

lemma endpoints_funpow [simp]: "endpoints ((addFaceToEdge fi ^^ c) er) = endpoints er"
  by (induction c) simp_all

lemma fresh_edges_nth:
  "fresh_edges new \<Longrightarrow> j < length new \<Longrightarrow> face_count (new ! j) = 0 \<and> er_faces (new ! j) = [- 1, - 1]"
  by (simp add: fresh_edges_def list_all_length)

lemma face_edges_ok_no_incidence:
  assumes "face_edges_ok model" and "length (m_edges model) \<le> k"
  shows "incidences (m_faces model) (int k) = []"
proof -
  have "int k \<notin> set (faceEdges f)" if "f \<in> set (m_faces model)" for f
  proof
    assume "int k \<in> set (faceEdges f)"
    with assms(1) that have "edge_ok_idx model (int k)"
      by (auto simp: face_edges_ok_def list_all_iff)
    with assms(2) show False by (simp add: edge_ok_idx_def)
  qed
  then show ?thesis by (simp add: incidences_def incidencesFrom_none)
qed

lemma addFace_edge_invs:
  assumes "addFace mesh f model = Inr model'" and "pos_inv model" and "pair_inv model"
    and "face_edges_ok model" and "edge_faces_inv model"
  shows "face_edges_ok model'" and "edge_faces_inv model'"
proof -
  define n where "n = vertexCountOf (isQuad f)"
  define fi where "fi = int (length (m_faces model))"
  from assms(1-3) obtain vis eis new_vs new_es where
    lv: "length vis = 4" and le: "length eis = 4"
    and eok: "\<forall>i < n. edge_ok model' (eis ! i) (vis ! i, vis ! ((i + 1) mod n))"
    and faces: "m_faces model' = m_faces model @ [newFaceRecord (isQuad f) vis eis]"
    and elen: "length (m_edges model') = length (m_edges model) + length new_es"
    and fr: "fresh_edges new_es"
    and erec: "\<forall>k < length (m_edges model').
           m_edges model' ! k =
             (addFaceToEdge fi ^^ count_list (take n eis) (int k)) ((m_edges model @ new_es) ! k)"
    and cover: "\<forall>k. length (m_edges model) \<le> k \<and> k < length (m_edges model') \<longrightarrow>
           int k \<in> set (take n eis)"
    unfolding n_def fi_def by (rule addFace_cases)
  have n4: "n \<le> 4" by (simp add: n_def vertexCountOf_def)
  have te: "set (take n eis) = (!) eis ` {0..<n}"
    using le n4 by (simp add: set_take_conv_nth)
  have fe: "faceEdges (newFaceRecord (isQuad f) vis eis) = take n eis"
    using le by (simp add: faceEdges_newFaceRecord n_def)
  show "face_edges_ok model'"
    unfolding face_edges_ok_def faces
  proof (simp add: fe, intro conjI)
    show "list_all (\<lambda>f. list_all (edge_ok_idx model') (faceEdges f)) (m_faces model)"
      using assms(4) elen
      by (fastforce simp: face_edges_ok_def list_all_iff edge_ok_idx_def intro: trans_less_add1)
    show "list_all (edge_ok_idx model') (take n eis)"
      using eok by (auto simp: list_all_iff te edge_ok_idx_def edge_ok_def)
  qed
  show "edge_faces_inv model'"
    unfolding edge_faces_inv_def
  proof (intro allI impI)
    fix k
    assume k: "k < length (m_edges model')"
    let ?c = "count_list (take n eis) (int k)"
    let ?old = "incidences (m_faces model) (int k)"
    have inc: "incidences (m_faces model') (int k) = ?old @ replicate ?c fi"
      by (simp add: faces incidences_snoc fe fi_def)
    have base: "(face_count ((m_edges model @ new_es) ! k), er_faces ((m_edges model @ new_es) ! k))
        = slotsAfter ?old"
      and ne: "?old @ replicate ?c fi \<noteq> []"
    proof -
      show "(face_count ((m_edges model @ new_es) ! k), er_faces ((m_edges model @ new_es) ! k))
        = slotsAfter ?old"
      proof (cases "k < length (m_edges model)")
        case True
        with assms(5) show ?thesis by (simp add: edge_faces_inv_def nth_append)
      next
        case False
        then have "?old = []"
          using face_edges_ok_no_incidence [OF assms(4)] by simp
        moreover from False k elen have "k - length (m_edges model) < length new_es" by simp
        note fresh_edges_nth [OF fr this]
        ultimately show ?thesis using False by (simp add: nth_append slotsAfter_def)
      qed
      show "?old @ replicate ?c fi \<noteq> []"
      proof (cases "k < length (m_edges model)")
        case True
        with assms(5) show ?thesis by (simp add: edge_faces_inv_def)
      next
        case False
        with cover k have "int k \<in> set (take n eis)" by simp
        then have "?c \<noteq> 0" by (simp add: count_list_0_iff)
        then show ?thesis by simp
      qed
    qed
    from erec k have "m_edges model' ! k = (addFaceToEdge fi ^^ ?c) ((m_edges model @ new_es) ! k)"
      by simp
    with slotsAfter_funpow [OF base, where fi = fi and c = ?c] ne
    show "incidences (m_faces model') (int k) \<noteq> [] \<and>
        (face_count (m_edges model' ! k), er_faces (m_edges model' ! k)) =
          slotsAfter (incidences (m_faces model') (int k))"
      by (simp add: inc)
  qed
qed

subsection \<open>The edges of a face in the pair map\<close>

lemma addFace_pairs_kept:
  assumes "addFace mesh f model = Inr model'" and "pos_inv model" and "pair_inv model"
    and "vertexPairToEdge model pr = Some k"
  shows "vertexPairToEdge model' pr = Some k"
proof -
  define fi where "fi = int (length (m_faces model))"
  from assms(1-3) obtain vis eis new_vs new_es where
    pi': "pair_inv model'"
    and elen: "length (m_edges model') = length (m_edges model) + length new_es"
    and erec: "\<forall>k < length (m_edges model').
           m_edges model' ! k =
             (addFaceToEdge fi ^^ count_list (take (vertexCountOf (isQuad f)) eis) (int k))
               ((m_edges model @ new_es) ! k)"
    unfolding fi_def by (rule addFace_cases)
  from index_mapD [OF assms(3) [unfolded pair_inv_def] assms(4)]
  have k: "0 \<le> k" "nat k < length (m_edges model)" and ep: "endpoints (m_edges model ! nat k) = pr"
    by simp_all
  have k': "nat k < length (map endpoints (m_edges model'))" using k elen by simp
  have "endpoints (m_edges model' ! nat k) = pr"
    using erec k elen ep by (simp add: nth_append)
  with index_map_lookup [OF pi' [unfolded pair_inv_def] k'] k k'
  show ?thesis by simp
qed

lemma addFace_face_pairs_inv:
  assumes "addFace mesh f model = Inr model'" and "pos_inv model" and "pair_inv model"
    and "face_pairs_inv model"
  shows "face_pairs_inv model'"
proof -
  define n where "n = vertexCountOf (isQuad f)"
  from assms(1-3) obtain vis eis new_vs new_es where
    lv: "length vis = 4" and le: "length eis = 4"
    and eok: "\<forall>i < n. edge_ok model' (eis ! i) (vis ! i, vis ! ((i + 1) mod n))"
    and faces: "m_faces model' = m_faces model @ [newFaceRecord (isQuad f) vis eis]"
    unfolding n_def by (rule addFace_cases)
  have n0: "0 < n" by (simp add: n_def vertexCountOf_def)
  show ?thesis
    unfolding face_pairs_inv_def
  proof (intro ballI allI impI)
    fix g i
    assume g: "g \<in> set (m_faces model')" and i: "i < vertexCountOf (fr_isQuad g)"
    let ?m = "vertexCountOf (fr_isQuad g)"
    from g faces consider "g \<in> set (m_faces model)" | "g = newFaceRecord (isQuad f) vis eis"
      by auto
    then show "vertexPairToEdge model' (sortedPair (fr_vertices g ! i, fr_vertices g ! ((i + 1) mod ?m)))
        = Some (fr_edges g ! i)"
    proof cases
      case 1
      with assms(4) i have "vertexPairToEdge model
          (sortedPair (fr_vertices g ! i, fr_vertices g ! ((i + 1) mod ?m))) = Some (fr_edges g ! i)"
        by (simp add: face_pairs_inv_def)
      then show ?thesis by (rule addFace_pairs_kept [OF assms(1-3)])
    next
      case 2
      have m: "?m = n" by (simp add: 2 n_def)
      have i': "i < n" and j': "(i + 1) mod n < n" using i m n0 by simp_all
      from eok i' have "vertexPairToEdge model' (sortedPair (vis ! i, vis ! ((i + 1) mod n))) =
          Some (eis ! i)"
        by (simp add: edge_ok_def)
      then show ?thesis
        unfolding m unfolding 2
        using newFaceRecord_nth [OF lv le i' [unfolded n_def]]
          newFaceRecord_nth [OF lv le j' [unfolded n_def]]
        by (simp add: n_def)
    qed
  qed
qed

subsection \<open>The invariant of the builder\<close>

lemma builder_inv_emptyModel: "builder_inv emptyModel"
  unfolding builder_inv_def
  by (simp add: pos_inv_emptyModel pair_inv_emptyModel)
    (simp add: emptyModel_def vertex_lists_inv_def face_edges_ok_def edge_faces_inv_def
      face_pairs_inv_def)

lemma addFace_builder_inv:
  assumes "addFace mesh f model = Inr model'" and "builder_inv model"
  shows "builder_inv model'"
proof -
  from assms(2) have pos: "pos_inv model" and pair: "pair_inv model"
    and vl: "vertex_lists_inv model" and fe: "face_edges_ok model"
    and ef: "edge_faces_inv model" and fp: "face_pairs_inv model"
    by (simp_all add: builder_inv_def)
  from assms(1) pos pair obtain vis eis new_vs new_es
    where "pos_inv model'" and "pair_inv model'"
    by (rule addFace_cases)
  with addFace_vertex_lists_inv [OF assms(1) pos pair vl]
    addFace_edge_invs [OF assms(1) pos pair fe ef]
    addFace_face_pairs_inv [OF assms(1) pos pair fp]
  show ?thesis by (simp add: builder_inv_def)
qed

lemma addFaces_builder_inv:
  "addFaces mesh fs model = Inr model' \<Longrightarrow> builder_inv model \<Longrightarrow> builder_inv model'"
proof (induction fs arbitrary: model)
  case Nil
  then show ?case by simp
next
  case (Cons f fs)
  from Cons.prems(1) obtain model1
    where a: "addFace mesh f model = Inr model1" and r: "addFaces mesh fs model1 = Inr model'"
    by (auto split: sum.splits)
  from Cons.IH [OF r addFace_builder_inv [OF a Cons.prems(2)]] show ?case .
qed

lemma meshToModel_builder_inv: "meshToModel mesh = Inr model \<Longrightarrow> builder_inv model"
  unfolding meshToModel_def by (rule addFaces_builder_inv [OF _ builder_inv_emptyModel])

lemma incidencesFrom_mem:
  "fi \<in> set (incidencesFrom b fs e) \<Longrightarrow>
     int b \<le> fi \<and> nat fi - b < length fs \<and> e \<in> set (faceEdges (fs ! (nat fi - b)))"
proof (induction fs arbitrary: b)
  case Nil
  then show ?case by simp
next
  case (Cons f fs)
  from Cons.prems consider "fi = int b" "e \<in> set (faceEdges f)" | "fi \<in> set (incidencesFrom (Suc b) fs e)"
    by (auto simp: count_list_0_iff split: if_splits)
  then show ?case
  proof cases
    case 1
    then show ?thesis by simp
  next
    case 2
    note ih = Cons.IH [OF this]
    then have "nat fi - b = Suc (nat fi - Suc b)" by linarith
    with ih show ?thesis by simp
  qed
qed

lemma incidences_mem:
  "fi \<in> set (incidences fs e) \<Longrightarrow>
     0 \<le> fi \<and> nat fi < length fs \<and> e \<in> set (faceEdges (fs ! nat fi))"
  using incidencesFrom_mem [of fi 0 fs e] by (simp add: incidences_def)

lemma incidencesFrom_sorted: "sorted (incidencesFrom b fs e)"
proof (induction fs arbitrary: b)
  case Nil
  then show ?case by simp
next
  case (Cons f fs)
  have "int b \<le> y" if "y \<in> set (incidencesFrom (Suc b) fs e)" for y
    using incidencesFrom_mem [OF that] by simp
  with Cons.IH [of "Suc b"] show ?case
    by (auto simp: sorted_append)
qed

lemma count_list_distinct:
  "distinct xs \<Longrightarrow> count_list xs e = (if e \<in> set xs then 1 else 0)"
  by (induction xs) auto

lemma incidencesFrom_distinct_faces:
  "\<forall>f \<in> set fs. distinct (faceEdges f) \<Longrightarrow> incidencesFrom b fs e = facesSharingFrom b fs e"
  by (induction fs arbitrary: b) (simp_all add: count_list_distinct)

lemma incidences_distinct_faces:
  "\<forall>f \<in> set fs. distinct (faceEdges f) \<Longrightarrow> incidences fs e = facesSharing fs e"
  by (simp add: incidences_def facesSharing_def incidencesFrom_distinct_faces)

section \<open>Sums of vectors\<close>

lemma vec_eqI: "vx p = vx q \<Longrightarrow> vy p = vy q \<Longrightarrow> vz p = vz q \<Longrightarrow> p = q"
  by (cases p; cases q) (simp add: vx_def vy_def vz_def)

lemma vadd_sel [simp]:
  "vx (vadd p q) = vx p + vx q" "vy (vadd p q) = vy p + vy q" "vz (vadd p q) = vz p + vz q"
  by (cases p; cases q; simp add: vx_def vy_def vz_def)+

lemma smul_sel [simp]:
  "vx (smul k p) = k * vx p" "vy (smul k p) = k * vy p" "vz (smul k p) = k * vz p"
  by (cases p; simp add: vx_def vy_def vz_def)+

lemma vdiv_sel [simp]:
  "vx (vdiv p k) = vx p / k" "vy (vdiv p k) = vy p / k" "vz (vdiv p k) = vz p / k"
  by (cases p; simp add: vx_def vy_def vz_def)+

lemma vzero_sel [simp]: "vx vzero = 0" "vy vzero = 0" "vz vzero = 0"
  by (simp_all add: vzero_def vx_def vy_def vz_def)

lemma fold_vadd_sel:
  "vx (fold (\<lambda>x s. vadd s (g x)) xs a) = vx a + sum_list (map (\<lambda>x. vx (g x)) xs)"
  "vy (fold (\<lambda>x s. vadd s (g x)) xs a) = vy a + sum_list (map (\<lambda>x. vy (g x)) xs)"
  "vz (fold (\<lambda>x s. vadd s (g x)) xs a) = vz a + sum_list (map (\<lambda>x. vz (g x)) xs)"
  by (induction xs arbitrary: a) (simp_all add: add.assoc)

lemma vsum_sel:
  "vx (vsum ps) = sum_list (map vx ps)" "vy (vsum ps) = sum_list (map vy ps)"
  "vz (vsum ps) = sum_list (map vz ps)"
  using fold_vadd_sel [of "\<lambda>p. p" ps vzero] by (simp_all add: vsum_def)

lemma sum_list_count:
  fixes f :: "'a \<Rightarrow> rat"
  shows "sum_list (map f xs) = (\<Sum>e \<in> set xs. of_nat (count_list xs e) * f e)"
proof (induction xs)
  case Nil
  then show ?case by simp
next
  case (Cons x xs)
  let ?c = "\<lambda>e. of_nat (count_list xs e) * f e"
  have "(\<Sum>e \<in> set (x # xs). of_nat (count_list (x # xs) e) * f e) =
      (\<Sum>e \<in> insert x (set xs). ?c e + (if e = x then f e else 0))"
    by (rule sum.cong) (auto simp: algebra_simps)
  also have "\<dots> = (\<Sum>e \<in> insert x (set xs). ?c e) + (\<Sum>e \<in> insert x (set xs). if e = x then f e else 0)"
    by (rule sum.distrib)
  also have "(\<Sum>e \<in> insert x (set xs). if e = x then f e else 0) = f x"
    by (simp add: sum.delta')
  also have "(\<Sum>e \<in> insert x (set xs). ?c e) = (\<Sum>e \<in> set xs. ?c e)"
  proof (cases "x \<in> set xs")
    case True
    then show ?thesis by (simp add: insert_absorb)
  next
    case False
    then show ?thesis by (simp add: count_list_0_iff)
  qed
  finally show ?case using Cons.IH by simp
qed

lemma sum_list_weighted:
  fixes f :: "'a \<Rightarrow> rat"
  shows "sum_list (map f xs) = sum_list (map (\<lambda>e. of_nat (count_list xs e) * f e) (remdups xs))"
proof -
  have "sum_list (map (\<lambda>e. of_nat (count_list xs e) * f e) (remdups xs)) =
      (\<Sum>e \<in> set (remdups xs). of_nat (count_list xs e) * f e)"
    by (rule sum_list_distinct_conv_sum_set) simp
  then show ?thesis by (simp only: sum_list_count [of f xs] set_remdups)
qed

lemma fold_vadd_weighted:
  "fold (\<lambda>x s. vadd s (g x)) xs vzero =
     vsum (map (\<lambda>e. smul (of_nat (count_list xs e)) (g e)) (remdups xs))"
  by (rule vec_eqI)
    (simp_all add: fold_vadd_sel vsum_sel comp_def sum_list_weighted [of _ xs])

lemma avgEdgeMidOf_weighted:
  "avgEdgeMidOf oldModel oldPositions v =
     vdiv (vsum (map (\<lambda>e. smul (of_nat (count_list (vr_edges v) e)) (edgeMid oldModel oldPositions e))
                  (remdups (vr_edges v))))
          (of_nat (length (vr_edges v)))"
  unfolding avgEdgeMidOf_def Let_def edgeMid_def [symmetric]
  by (simp only: fold_vadd_weighted)

lemma meshToModel_vertex_lists:
  assumes "meshToModel mesh = Inr model" and "u < length (m_vertices model)"
  shows "length (vr_edges (m_vertices model ! u)) = 2 * length (vr_faces (m_vertices model ! u))"
  using meshToModel_builder_inv [OF assms(1)] assms(2)
  by (simp add: builder_inv_def vertex_lists_inv_def list_all_length)

section \<open>The position-keyed move\<close>

lemma moveVertex_same_position:
  "fst (moveVertex model i (vr_position (m_vertices model ! nat i))) = None"
  by (simp add: moveVertex_def Let_def)

lemma moveVertex_throw_state:
  assumes "fst (moveVertex model i p) = Some e"
  shows "snd (moveVertex model i p) =
           model\<lparr>positionToVertex :=
             (positionToVertex model)(vr_position (m_vertices model ! nat i) := None)\<rparr>"
    and "e = TopologyError"
  using assms by (auto simp: moveVertex_def Let_def split: if_splits)

text \<open>
  Claim C10. The old position's key is erased before the collision check. Hence a move
  of a vertex to its own current position never raises; and when the move raises, the
  model it leaves behind is the model it was given with the old position's key erased
  from \<open>positionToVertex\<close>, which differs from the model it was given whenever that key
  was present: the operation is not atomic.
\<close>

theorem moveVertex_erases_before_check:
  "fst (moveVertex model i (vr_position (m_vertices model ! nat i))) = None \<and>
   (fst (moveVertex model i p) \<noteq> None \<longrightarrow>
      positionToVertex (snd (moveVertex model i p)) (vr_position (m_vertices model ! nat i)) = None \<and>
      snd (moveVertex model i p) =
        model\<lparr>positionToVertex :=
          (positionToVertex model)(vr_position (m_vertices model ! nat i) := None)\<rparr> \<and>
      (positionToVertex model (vr_position (m_vertices model ! nat i)) \<noteq> None \<longrightarrow>
         snd (moveVertex model i p) \<noteq> model))"
proof (intro conjI impI)
  show "fst (moveVertex model i (vr_position (m_vertices model ! nat i))) = None"
    by (rule moveVertex_same_position)
next
  assume raised: "fst (moveVertex model i p) \<noteq> None"
  then obtain e where e: "fst (moveVertex model i p) = Some e" by auto
  show st: "snd (moveVertex model i p) =
        model\<lparr>positionToVertex :=
          (positionToVertex model)(vr_position (m_vertices model ! nat i) := None)\<rparr>"
    by (rule moveVertex_throw_state(1)[OF e])
  show gone: "positionToVertex (snd (moveVertex model i p)) (vr_position (m_vertices model ! nat i)) = None"
    by (simp add: st)
  assume "positionToVertex model (vr_position (m_vertices model ! nat i)) \<noteq> None"
  with gone show "snd (moveVertex model i p) \<noteq> model" by auto
qed

theorem moveVertex_erases_before_check_witness:
  "fst (moveVertex twoVertexModel 0 (1, 0, 0)) = Some TopologyError \<and>
   positionToVertex twoVertexModel (0, 0, 0) = Some 0 \<and>
   positionToVertex (snd (moveVertex twoVertexModel 0 (1, 0, 0))) (0, 0, 0) = None \<and>
   snd (moveVertex twoVertexModel 0 (1, 0, 0)) \<noteq> twoVertexModel \<and>
   fst (moveVertex twoVertexModel 0 (0, 0, 0)) = None"
proof -
  have r: "fst (moveVertex twoVertexModel 0 (1, 0, 0)) = Some TopologyError"
    by (simp add: moveVertex_def twoVertexModel_def Let_def)
  have k: "positionToVertex twoVertexModel (0, 0, 0) = Some 0"
    by (simp add: twoVertexModel_def)
  have o: "vr_position (m_vertices twoVertexModel ! nat 0) = (0, 0, 0)"
    by (simp add: twoVertexModel_def)
  have n: "fst (moveVertex twoVertexModel 0 (1, 0, 0)) \<noteq> None"
    by (simp add: r)
  have k': "positionToVertex twoVertexModel (0, 0, 0) \<noteq> None"
    by (simp add: k)
  note t = moveVertex_erases_before_check [of twoVertexModel 0 "(1, 0, 0)", unfolded o]
  from t n k' r k show ?thesis by blast
qed

section \<open>Moving the vertices\<close>

lemma index_map_move:
  assumes "index_map mp keys" and "j < length keys" and "(mp(keys ! j := None)) k = None"
  shows "index_map ((mp(keys ! j := None))(k \<mapsto> int j)) (keys[j := k])"
proof (rule index_mapI)
  fix q i
  assume l: "((mp(keys ! j := None))(k \<mapsto> int j)) q = Some i"
  show "0 \<le> i \<and> nat i < length (keys[j := k]) \<and> keys[j := k] ! nat i = q"
  proof (cases "q = k")
    case True
    with l assms(2) show ?thesis by auto
  next
    case False
    with l have q: "q \<noteq> keys ! j" and "mp q = Some i" by (auto split: if_splits)
    note d = index_mapD [OF assms(1) this(2)]
    with q have "nat i \<noteq> j" by auto
    with d show ?thesis by simp
  qed
next
  fix i
  assume "i < length (keys[j := k])"
  then have i: "i < length keys" by simp
  show "((mp(keys ! j := None))(k \<mapsto> int j)) (keys[j := k] ! i) = Some (int i)"
  proof (cases "i = j")
    case True
    with i show ?thesis by simp
  next
    case False
    have ne: "keys ! i \<noteq> keys ! j"
      using index_map_distinct [OF assms(1)] i assms(2) False by (simp add: nth_eq_iff_index_eq)
    have lk: "mp (keys ! i) = Some (int i)" by (rule index_map_lookup [OF assms(1) i])
    have "keys ! i \<noteq> k"
    proof
      assume "keys ! i = k"
      with assms(3) ne lk show False by auto
    qed
    with ne lk show ?thesis using False by simp
  qed
qed

lemma moveVertex_success:
  assumes "fst (moveVertex model i p) = None"
  shows "snd (moveVertex model i p) =
     model\<lparr>positionToVertex :=
         ((positionToVertex model)(vr_position (m_vertices model ! nat i) := None))(p \<mapsto> i),
       m_vertices := (m_vertices model)[nat i := (m_vertices model ! nat i)\<lparr>vr_position := p\<rparr>]\<rparr>"
    and "((positionToVertex model)(vr_position (m_vertices model ! nat i) := None)) p = None"
  using assms by (auto simp: moveVertex_def Let_def split: if_splits)

lemma moveVertex_frame:
  "m_edges (snd (moveVertex model i p)) = m_edges model"
  "m_faces (snd (moveVertex model i p)) = m_faces model"
  "vertexPairToEdge (snd (moveVertex model i p)) = vertexPairToEdge model"
  "length (m_vertices (snd (moveVertex model i p))) = length (m_vertices model)"
  "map vr_edges (m_vertices (snd (moveVertex model i p))) = map vr_edges (m_vertices model)"
  "map vr_faces (m_vertices (snd (moveVertex model i p))) = map vr_faces (m_vertices model)"
  by (simp_all add: moveVertex_def Let_def map_update_same)

lemma moveVertex_position:
  assumes "fst (moveVertex model i p) = None" and "vertex_ok model i"
    and "u < length (m_vertices model)"
  shows "vr_position (m_vertices (snd (moveVertex model i p)) ! u) =
           (if u = nat i then p else vr_position (m_vertices model ! u))"
  using assms(2,3) by (simp add: moveVertex_success(1) [OF assms(1)] vertex_ok_def nth_list_update)

lemma moveVertex_pos_inv:
  assumes "pos_inv model" and "vertex_ok model i" and "fst (moveVertex model i p) = None"
  shows "pos_inv (snd (moveVertex model i p))"
proof -
  let ?keys = "map vr_position (m_vertices model)"
  have j: "nat i < length ?keys" and i: "0 \<le> i"
    using assms(2) by (simp_all add: vertex_ok_def)
  have old: "?keys ! nat i = vr_position (m_vertices model ! nat i)"
    using j by simp
  from moveVertex_success(2) [OF assms(3)]
  have free: "((positionToVertex model)(?keys ! nat i := None)) p = None"
    by (simp only: old)
  from index_map_move [OF assms(1) [unfolded pos_inv_def] j free]
  show ?thesis
    unfolding pos_inv_def
    by (simp add: moveVertex_success(1) [OF assms(3)] map_update old i)
qed

lemma moveVertex_raises_iff:
  assumes "pos_inv model" and "vertex_ok model i"
  shows "fst (moveVertex model i p) = Some TopologyError \<longleftrightarrow>
     (\<exists>j < length (m_vertices model). j \<noteq> nat i \<and> vr_position (m_vertices model ! j) = p)"
proof -
  let ?keys = "map vr_position (m_vertices model)"
  let ?old = "vr_position (m_vertices model ! nat i)"
  note im = assms(1) [unfolded pos_inv_def]
  have ni: "nat i < length (m_vertices model)" using assms(2) by (simp add: vertex_ok_def)
  have raise: "fst (moveVertex model i p) = Some TopologyError \<longleftrightarrow>
      p \<noteq> ?old \<and> positionToVertex model p \<noteq> None"
    by (auto simp: moveVertex_def Let_def)
  show ?thesis
    unfolding raise
  proof
    assume a: "p \<noteq> ?old \<and> positionToVertex model p \<noteq> None"
    then obtain j where "positionToVertex model p = Some j" by auto
    from index_mapD [OF im this] a
    have "nat j < length (m_vertices model) \<and> nat j \<noteq> nat i \<and>
        vr_position (m_vertices model ! nat j) = p"
      by auto
    then show "\<exists>j < length (m_vertices model). j \<noteq> nat i \<and> vr_position (m_vertices model ! j) = p"
      by blast
  next
    assume "\<exists>j < length (m_vertices model). j \<noteq> nat i \<and> vr_position (m_vertices model ! j) = p"
    then obtain j where j: "j < length (m_vertices model)" "j \<noteq> nat i"
      and p: "vr_position (m_vertices model ! j) = p" by blast
    have "(?keys ! j = ?keys ! nat i) = (j = nat i)"
      by (rule nth_eq_iff_index_eq [OF index_map_distinct [OF im]]) (use j ni in simp_all)
    with j ni p have "p \<noteq> ?old" by simp
    moreover have "positionToVertex model p = Some (int j)"
      using index_map_lookup [OF im, of j] j p by simp
    ultimately show "p \<noteq> ?old \<and> positionToVertex model p \<noteq> None" by simp
  qed
qed

lemma moveVertices_failure:
  "moveVertices facePoints oldPositions is model = Inl e \<Longrightarrow> e = TopologyError"
proof (induction "is" arbitrary: model)
  case Nil
  then show ?case by simp
next
  case (Cons i "is")
  let ?r = "moveVertex model (int i) (newPositionOf model facePoints oldPositions i)"
  show ?case
  proof (cases "fst ?r")
    case None
    with Cons.prems have "moveVertices facePoints oldPositions is (snd ?r) = Inl e"
      by (simp add: Let_def split: prod.splits)
    then show ?thesis by (rule Cons.IH)
  next
    case (Some a)
    with moveVertex_throw_state(2) [OF Some] Cons.prems show ?thesis
      by (simp add: Let_def split: prod.splits)
  qed
qed

lemma once_fails_iff:
  "applyCatmullClarkSubdivisionOnce model = Inl e \<longleftrightarrow>
     moveVertices (computeFacePoints model) (map vr_position (m_vertices model))
       [0..<length (m_vertices model)] model = Inl e"
  by (simp add: applyCatmullClarkSubdivisionOnce_def Let_def split: sum.splits)

lemma subdivisionLoop_fails:
  "k < n \<Longrightarrow> meshToModel mesh = Inr model \<Longrightarrow> applyCatmullClarkSubdivisionOnce model = Inl e \<Longrightarrow>
   subdivisionLoop k n mesh = Inl e"
  by (simp add: subdivisionLoop.simps [of k])

section \<open>The repositioning rule\<close>

lemma fold_vadd_map:
  "fold (\<lambda>x s. vadd s (g x)) xs a = fold (\<lambda>p s. vadd s p) (map g xs) a"
  by (simp add: fold_map comp_def)

lemma avgFacePositionOf_vmean:
  "avgFacePositionOf facePoints v = vmean (map (\<lambda>fi. facePoints ! nat fi) (vr_faces v))"
proof -
  have "map (\<lambda>j. facePoints ! nat (vr_faces v ! j)) [0..<length (vr_faces v)] =
      map (\<lambda>fi. facePoints ! nat fi) (map ((!) (vr_faces v)) [0..<length (vr_faces v)])"
    by simp
  also have "\<dots> = map (\<lambda>fi. facePoints ! nat fi) (vr_faces v)"
    by (simp only: map_nth)
  finally show ?thesis
    by (simp add: avgFacePositionOf_def vmean_def vsum_def
        fold_vadd_map [of "\<lambda>j. facePoints ! nat (vr_faces v ! j)"])
qed

lemma avgEdgeMidOf_vmean:
  "avgEdgeMidOf model oldPositions v = vmean (map (edgeMid model oldPositions) (vr_edges v))"
  unfolding avgEdgeMidOf_def Let_def edgeMid_def [symmetric]
  by (simp add: vmean_def vsum_def fold_vadd_map [of "edgeMid model oldPositions"])

lemma newPositionOf_vertexRule:
  "newPositionOf model (computeFacePoints model) (map vr_position (m_vertices model)) i =
     vertexRule model i"
  by (simp add: newPositionOf_def vertexRule_def Let_def avgFacePositionOf_vmean
      avgEdgeMidOf_vmean)

lemma newPositionOf_cong:
  assumes "m_edges model' = m_edges model"
    and "map vr_edges (m_vertices model') = map vr_edges (m_vertices model)"
    and "map vr_faces (m_vertices model') = map vr_faces (m_vertices model)"
    and "i < length (m_vertices model)"
  shows "newPositionOf model' facePoints oldPositions i =
           newPositionOf model facePoints oldPositions i"
proof -
  have "vr_edges (m_vertices model' ! i) = vr_edges (m_vertices model ! i)"
    by (rule map_nth_eq [OF assms(2,4)])
  moreover have "vr_faces (m_vertices model' ! i) = vr_faces (m_vertices model ! i)"
    by (rule map_nth_eq [OF assms(3,4)])
  ultimately show ?thesis
    by (simp add: newPositionOf_def Let_def avgFacePositionOf_def avgEdgeMidOf_def assms(1))
qed

lemma moveVertices_positions:
  assumes "moveVertices facePoints oldPositions is model = Inr model'"
    and "distinct is" and "\<forall>i \<in> set is. i < length (m_vertices model0)"
    and "m_edges model = m_edges model0"
    and "map vr_edges (m_vertices model) = map vr_edges (m_vertices model0)"
    and "map vr_faces (m_vertices model) = map vr_faces (m_vertices model0)"
  shows "m_edges model' = m_edges model0 \<and> m_faces model' = m_faces model \<and>
     vertexPairToEdge model' = vertexPairToEdge model \<and>
     map vr_edges (m_vertices model') = map vr_edges (m_vertices model0) \<and>
     map vr_faces (m_vertices model') = map vr_faces (m_vertices model0) \<and>
     (\<forall>u < length (m_vertices model0).
        vr_position (m_vertices model' ! u) =
          (if u \<in> set is then newPositionOf model0 facePoints oldPositions u
           else vr_position (m_vertices model ! u)))"
  using assms
proof (induction "is" arbitrary: model)
  case Nil
  then show ?case by simp
next
  case (Cons i "is")
  let ?p = "newPositionOf model facePoints oldPositions i"
  let ?r = "moveVertex model (int i) ?p"
  have len: "length (m_vertices model) = length (m_vertices model0)"
    using Cons.prems(5) by (rule map_eq_imp_length_eq)
  have i: "i < length (m_vertices model0)" and ni: "i \<notin> set is" and d: "distinct is"
    and rest: "\<forall>j \<in> set is. j < length (m_vertices model0)"
    using Cons.prems(2,3) by simp_all
  have ok: "vertex_ok model (int i)" using i len by (simp add: vertex_ok_def)
  have p: "?p = newPositionOf model0 facePoints oldPositions i"
    by (rule newPositionOf_cong [OF Cons.prems(4-6) i])
  have none: "fst ?r = None"
    using Cons.prems(1) by (cases "fst ?r") (auto simp: Let_def split: prod.splits)
  with Cons.prems(1) have run: "moveVertices facePoints oldPositions is (snd ?r) = Inr model'"
    by (simp add: Let_def split: prod.splits)
  note fr = moveVertex_frame [of model "int i" ?p]
  note ih = Cons.IH [OF run d rest, unfolded fr, OF Cons.prems(4-6)]
  have "vr_position (m_vertices model' ! u) =
          (if u \<in> set (i # is) then newPositionOf model0 facePoints oldPositions u
           else vr_position (m_vertices model ! u))"
    if u: "u < length (m_vertices model0)" for u
  proof -
    have "vr_position (m_vertices (snd ?r) ! u) =
        (if u = nat (int i) then ?p else vr_position (m_vertices model ! u))"
      using u len by (intro moveVertex_position [OF none ok]) simp
    with ih u ni p show ?thesis by auto
  qed
  with ih show ?case by simp
qed

lemma moveVertices_vertexRule:
  assumes "moveVertices (computeFacePoints model) (map vr_position (m_vertices model))
      [0..<length (m_vertices model)] model = Inr moved"
    and "i < length (m_vertices model)"
  shows "vr_position (m_vertices moved ! i) = vertexRule model i"
  using moveVertices_positions [OF assms(1) distinct_upt, of model] assms(2)
  by (simp add: newPositionOf_vertexRule)

section \<open>The output mesh\<close>

lemma getEdgeIndex_found:
  "vertexPairToEdge model (sortedPair pr) = Some k \<Longrightarrow> getEdgeIndex model pr = (k, model)"
  by (simp add: getEdgeIndex_def)

lemma emitFace_quad:
  assumes "fr_isQuad (m_faces model ! fi)"
    and "getEdgeIndex model (fr_vertices (m_faces model ! fi) ! 0, fr_vertices (m_faces model ! fi) ! 1) = (e0, model)"
    and "getEdgeIndex model (fr_vertices (m_faces model ! fi) ! 1, fr_vertices (m_faces model ! fi) ! 2) = (e1, model)"
    and "getEdgeIndex model (fr_vertices (m_faces model ! fi) ! 2, fr_vertices (m_faces model ! fi) ! 3) = (e2, model)"
    and "getEdgeIndex model (fr_vertices (m_faces model ! fi) ! 3, fr_vertices (m_faces model ! fi) ! 0) = (e3, model)"
  shows "emitFace facePoints edgePoints fi (model, newMesh) =
     (model,
      newMesh\<lparr>vertices := vertices newMesh @
          map mkVertex
            [vr_position (m_vertices model ! nat (fr_vertices (m_faces model ! fi) ! 0)),
             vr_position (m_vertices model ! nat (fr_vertices (m_faces model ! fi) ! 1)),
             vr_position (m_vertices model ! nat (fr_vertices (m_faces model ! fi) ! 2)),
             vr_position (m_vertices model ! nat (fr_vertices (m_faces model ! fi) ! 3)),
             edgePoints ! nat e0, edgePoints ! nat e1, edgePoints ! nat e2, edgePoints ! nat e3,
             facePoints ! fi],
        faces := faces newMesh @
          [mkFace (length (vertices newMesh) + 7) (length (vertices newMesh))
             (length (vertices newMesh) + 4) (length (vertices newMesh) + 8),
           mkFace (length (vertices newMesh) + 4) (length (vertices newMesh) + 1)
             (length (vertices newMesh) + 5) (length (vertices newMesh) + 8),
           mkFace (length (vertices newMesh) + 5) (length (vertices newMesh) + 2)
             (length (vertices newMesh) + 6) (length (vertices newMesh) + 8),
           mkFace (length (vertices newMesh) + 6) (length (vertices newMesh) + 3)
             (length (vertices newMesh) + 7) (length (vertices newMesh) + 8)]\<rparr>)"
  unfolding emitFace_def prod.case Let_def
  by (simp only: assms if_True prod.case)

lemma emitFace_triangle:
  assumes "\<not> fr_isQuad (m_faces model ! fi)"
    and "getEdgeIndex model (fr_vertices (m_faces model ! fi) ! 0, fr_vertices (m_faces model ! fi) ! 1) = (e0, model)"
    and "getEdgeIndex model (fr_vertices (m_faces model ! fi) ! 1, fr_vertices (m_faces model ! fi) ! 2) = (e1, model)"
    and "getEdgeIndex model (fr_vertices (m_faces model ! fi) ! 2, fr_vertices (m_faces model ! fi) ! 0) = (e2, model)"
  shows "emitFace facePoints edgePoints fi (model, newMesh) =
     (model,
      newMesh\<lparr>vertices := vertices newMesh @
          map mkVertex
            [vr_position (m_vertices model ! nat (fr_vertices (m_faces model ! fi) ! 0)),
             vr_position (m_vertices model ! nat (fr_vertices (m_faces model ! fi) ! 1)),
             vr_position (m_vertices model ! nat (fr_vertices (m_faces model ! fi) ! 2)),
             edgePoints ! nat e0, edgePoints ! nat e1, edgePoints ! nat e2,
             facePoints ! fi],
        faces := faces newMesh @
          [mkFace (length (vertices newMesh) + 5) (length (vertices newMesh))
             (length (vertices newMesh) + 3) (length (vertices newMesh) + 6),
           mkFace (length (vertices newMesh) + 3) (length (vertices newMesh) + 1)
             (length (vertices newMesh) + 4) (length (vertices newMesh) + 6),
           mkFace (length (vertices newMesh) + 4) (length (vertices newMesh) + 2)
             (length (vertices newMesh) + 5) (length (vertices newMesh) + 6)]\<rparr>)"
  unfolding emitFace_def prod.case Let_def
  by (simp only: assms if_False prod.case)

lemma faceOutput_quad:
  assumes "fr_isQuad (m_faces model ! fi)"
  shows "faceOutputVertices model facePoints edgePoints fi =
     map mkVertex
       [vr_position (m_vertices model ! nat (fr_vertices (m_faces model ! fi) ! 0)),
        vr_position (m_vertices model ! nat (fr_vertices (m_faces model ! fi) ! 1)),
        vr_position (m_vertices model ! nat (fr_vertices (m_faces model ! fi) ! 2)),
        vr_position (m_vertices model ! nat (fr_vertices (m_faces model ! fi) ! 3)),
        edgePoints ! nat (fr_edges (m_faces model ! fi) ! 0),
        edgePoints ! nat (fr_edges (m_faces model ! fi) ! 1),
        edgePoints ! nat (fr_edges (m_faces model ! fi) ! 2),
        edgePoints ! nat (fr_edges (m_faces model ! fi) ! 3),
        facePoints ! fi]"
    and "faceOutputFaces b (vertexCountOf (fr_isQuad (m_faces model ! fi))) =
      [mkFace (b + 7) b (b + 4) (b + 8), mkFace (b + 4) (b + 1) (b + 5) (b + 8),
       mkFace (b + 5) (b + 2) (b + 6) (b + 8), mkFace (b + 6) (b + 3) (b + 7) (b + 8)]"
  using assms
  by (simp_all add: faceOutputVertices_def faceOutputFaces_def cornerQuad_def mkFace_def
      vertexCountOf_def upt4 Let_def)

lemma faceOutput_triangle:
  assumes "\<not> fr_isQuad (m_faces model ! fi)"
  shows "faceOutputVertices model facePoints edgePoints fi =
     map mkVertex
       [vr_position (m_vertices model ! nat (fr_vertices (m_faces model ! fi) ! 0)),
        vr_position (m_vertices model ! nat (fr_vertices (m_faces model ! fi) ! 1)),
        vr_position (m_vertices model ! nat (fr_vertices (m_faces model ! fi) ! 2)),
        edgePoints ! nat (fr_edges (m_faces model ! fi) ! 0),
        edgePoints ! nat (fr_edges (m_faces model ! fi) ! 1),
        edgePoints ! nat (fr_edges (m_faces model ! fi) ! 2),
        facePoints ! fi]"
    and "faceOutputFaces b (vertexCountOf (fr_isQuad (m_faces model ! fi))) =
      [mkFace (b + 5) b (b + 3) (b + 6), mkFace (b + 3) (b + 1) (b + 4) (b + 6),
       mkFace (b + 4) (b + 2) (b + 5) (b + 6)]"
  using assms
  by (simp_all add: faceOutputVertices_def faceOutputFaces_def cornerQuad_def mkFace_def
      vertexCountOf_def upt3 Let_def)

lemma emitFace_spec:
  assumes "face_pairs_inv model" and "fi < length (m_faces model)"
  shows "emitFace facePoints edgePoints fi (model, newMesh) =
     (model, newMesh\<lparr>vertices := vertices newMesh @ faceOutputVertices model facePoints edgePoints fi,
        faces := faces newMesh @
          faceOutputFaces (length (vertices newMesh)) (vertexCountOf (fr_isQuad (m_faces model ! fi)))\<rparr>)"
proof -
  let ?f = "m_faces model ! fi"
  let ?n = "vertexCountOf (fr_isQuad ?f)"
  have f: "?f \<in> set (m_faces model)" using assms(2) by simp
  have look: "getEdgeIndex model (fr_vertices ?f ! i, fr_vertices ?f ! ((i + 1) mod ?n)) =
      (fr_edges ?f ! i, model)" if "i < ?n" for i
  proof (rule getEdgeIndex_found)
    from assms(1) f that
    show "vertexPairToEdge model (sortedPair (fr_vertices ?f ! i, fr_vertices ?f ! ((i + 1) mod ?n)))
        = Some (fr_edges ?f ! i)"
      unfolding face_pairs_inv_def by blast
  qed
  show ?thesis
  proof (cases "fr_isQuad ?f")
    case True
    then have n: "?n = 4" by (simp add: vertexCountOf_def)
    have m: "(0 + 1) mod 4 = (1::nat)" "(1 + 1) mod 4 = (2::nat)" "(2 + 1) mod 4 = (3::nat)"
      "(3 + 1) mod 4 = (0::nat)" by simp_all
    have lt: "(0::nat) < 4" "(1::nat) < 4" "(2::nat) < 4" "(3::nat) < 4" by simp_all
    note l = look [of 0, unfolded n m, OF lt(1)] look [of 1, unfolded n m, OF lt(2)]
      look [of 2, unfolded n m, OF lt(3)] look [of 3, unfolded n m, OF lt(4)]
    show ?thesis
      by (simp only: emitFace_quad [OF True l] faceOutput_quad [OF True])
  next
    case False
    then have n: "?n = 3" by (simp add: vertexCountOf_def)
    have m: "(0 + 1) mod 3 = (1::nat)" "(1 + 1) mod 3 = (2::nat)" "(2 + 1) mod 3 = (0::nat)"
      by simp_all
    have lt: "(0::nat) < 3" "(1::nat) < 3" "(2::nat) < 3" by simp_all
    note l = look [of 0, unfolded n m, OF lt(1)] look [of 1, unfolded n m, OF lt(2)]
      look [of 2, unfolded n m, OF lt(3)]
    show ?thesis
      by (simp only: emitFace_triangle [OF False l] faceOutput_triangle [OF False])
  qed
qed

lemma length_faceOutputVertices:
  "length (faceOutputVertices model facePoints edgePoints fi) =
     2 * vertexCountOf (fr_isQuad (m_faces model ! fi)) + 1"
  by (simp add: faceOutputVertices_def Let_def)

lemma fold_emitFace:
  assumes "face_pairs_inv model" and "\<forall>fi \<in> set fis. fi < length (m_faces model)"
  shows "fold (emitFace facePoints edgePoints) fis (model, newMesh) =
     (model, newMesh\<lparr>vertices := vertices newMesh @
          concat (map (faceOutputVertices model facePoints edgePoints) fis),
        faces := faces newMesh @
          outputFaces (length (vertices newMesh))
            (map (\<lambda>fi. vertexCountOf (fr_isQuad (m_faces model ! fi))) fis)\<rparr>)"
  using assms(2)
proof (induction fis arbitrary: newMesh)
  case Nil
  then show ?case by simp
next
  case (Cons fi fis)
  then have fi: "fi < length (m_faces model)" and r: "\<forall>fi \<in> set fis. fi < length (m_faces model)"
    by simp_all
  show ?case
    by (simp add: emitFace_spec [OF assms(1) fi] Cons.IH [OF r] length_faceOutputVertices
        add.assoc)
qed

lemma addFaces_isQuad:
  "addFaces mesh fs model = Inr model' \<Longrightarrow> builder_inv model \<Longrightarrow>
   map fr_isQuad (m_faces model') = map fr_isQuad (m_faces model) @ map isQuad fs"
proof (induction fs arbitrary: model)
  case Nil
  then show ?case by simp
next
  case (Cons f fs)
  from Cons.prems(1) obtain model1
    where a: "addFace mesh f model = Inr model1" and r: "addFaces mesh fs model1 = Inr model'"
    by (auto split: sum.splits)
  from Cons.prems(2) have "pos_inv model" "pair_inv model" by (simp_all add: builder_inv_def)
  with a obtain vis eis new_vs new_es
    where "m_faces model1 = m_faces model @ [newFaceRecord (isQuad f) vis eis]"
    by (rule addFace_cases)
  with Cons.IH [OF r addFace_builder_inv [OF a Cons.prems(2)]] show ?case by simp
qed

lemma meshToModel_isQuad:
  "meshToModel mesh = Inr model \<Longrightarrow> map fr_isQuad (m_faces model) = map isQuad (faces mesh)"
  unfolding meshToModel_def
  using addFaces_isQuad [OF _ builder_inv_emptyModel] by (fastforce simp: emptyModel_def)

lemma outputFaces_isQuad: "list_all isQuad (outputFaces b ns)"
  by (induction ns arbitrary: b) (auto simp: faceOutputFaces_def cornerQuad_def list_all_iff)

lemma length_outputFaces: "length (outputFaces b ns) = sum_list ns"
  by (induction ns arbitrary: b) (simp_all add: faceOutputFaces_def)

lemma face_edge_joins_corners:
  assumes "pair_inv model" and "face_pairs_inv model" and "f \<in> set (m_faces model)"
    and "i < vertexCountOf (fr_isQuad f)"
  shows "0 \<le> fr_edges f ! i \<and> nat (fr_edges f ! i) < length (m_edges model) \<and>
     endpoints (m_edges model ! nat (fr_edges f ! i)) =
       sortedPair (fr_vertices f ! i, fr_vertices f ! ((i + 1) mod vertexCountOf (fr_isQuad f)))"
proof -
  from assms(2-4)
  have "vertexPairToEdge model
      (sortedPair (fr_vertices f ! i, fr_vertices f ! ((i + 1) mod vertexCountOf (fr_isQuad f))))
      = Some (fr_edges f ! i)"
    unfolding face_pairs_inv_def by blast
  from index_mapD [OF assms(1) [unfolded pair_inv_def] this] show ?thesis by simp
qed

lemma once_output:
  assumes "applyCatmullClarkSubdivisionOnce model = Inr newMesh" and "face_pairs_inv model"
  shows "vertices newMesh =
      concat (map (faceOutputVertices (movedModel model) (computeFacePoints model)
                     (computeEdgePoints model (computeFacePoints model)))
                [0..<length (m_faces model)])"
    and "faces newMesh = outputFaces 0 (cornerCounts model)"
proof -
  let ?fp = "computeFacePoints model"
  let ?ep = "computeEdgePoints model ?fp"
  from assms(1) obtain moved
    where mv: "moveVertices ?fp (map vr_position (m_vertices model))
        [0..<length (m_vertices model)] model = Inr moved"
      and out: "newMesh = snd (fold (emitFace ?fp ?ep) [0..<length (m_faces moved)] (moved, emptyMesh))"
    by (auto simp: applyCatmullClarkSubdivisionOnce_def Let_def split: sum.splits)
  have moved: "movedModel model = moved" by (simp add: movedModel_def mv)
  from moveVertices_positions [OF mv distinct_upt, of model]
  have fr: "m_faces moved = m_faces model" "vertexPairToEdge moved = vertexPairToEdge model"
    by simp_all
  have fpi: "face_pairs_inv moved"
    using assms(2) by (simp add: face_pairs_inv_def fr)
  have "\<forall>fi \<in> set [0..<length (m_faces moved)]. fi < length (m_faces moved)" by simp
  note fe = fold_emitFace [OF fpi this, of ?fp ?ep emptyMesh]
  have cc: "map (\<lambda>fi. vertexCountOf (fr_isQuad (m_faces model ! fi))) [0..<length (m_faces model)]
      = cornerCounts model"
    unfolding cornerCounts_def by (rule nth_equalityI) simp_all
  show "vertices newMesh = concat (map (faceOutputVertices (movedModel model) ?fp ?ep)
      [0..<length (m_faces model)])"
    by (simp only: out fe) (simp add: moved fr emptyMesh_def)
  show "faces newMesh = outputFaces 0 (cornerCounts model)"
    by (simp only: out fe) (simp add: fr emptyMesh_def cc)
qed

section \<open>The builder reads corner positions only\<close>

lemma resolveVertices_cong:
  assumes "\<forall>i \<in> set is. indices f ! i < length (vertices mesh) \<and>
      indices f' ! i < length (vertices mesh') \<and>
      position (vertices mesh ! (indices f ! i)) = position (vertices mesh' ! (indices f' ! i))"
  shows "resolveVertices mesh f is st = resolveVertices mesh' f' is st"
  using assms
proof (induction "is" arbitrary: st)
  case Nil
  then show ?case by (cases st) simp
next
  case (Cons i "is")
  obtain model vis where st: "st = (model, vis)" by (cases st)
  from Cons.prems have h: "indices f ! i < length (vertices mesh)"
    "indices f' ! i < length (vertices mesh')"
    "position (vertices mesh ! (indices f ! i)) = position (vertices mesh' ! (indices f' ! i))"
    and r: "\<forall>i \<in> set is. indices f ! i < length (vertices mesh) \<and>
      indices f' ! i < length (vertices mesh') \<and>
      position (vertices mesh ! (indices f ! i)) = position (vertices mesh' ! (indices f' ! i))"
    by simp_all
  show ?case
    unfolding st by (simp add: h Cons.IH [OF r] split: prod.splits)
qed

lemma addFace_cong:
  assumes "sameCorners mesh mesh' f f'"
  shows "addFace mesh f model = addFace mesh' f' model"
proof -
  from assms have q: "isQuad f' = isQuad f" by (simp add: sameCorners_def)
  from assms have "\<forall>i \<in> set [0..<vertexCountOf (isQuad f)].
      indices f ! i < length (vertices mesh) \<and> indices f' ! i < length (vertices mesh') \<and>
      position (vertices mesh ! (indices f ! i)) = position (vertices mesh' ! (indices f' ! i))"
    by (simp add: sameCorners_def)
  note rc = resolveVertices_cong [OF this]
  show ?thesis
    by (simp only: addFace_def q rc Let_def)
qed

lemma addFaces_cong:
  "list_all2 (sameCorners mesh mesh') fs fs' \<Longrightarrow> addFaces mesh fs model = addFaces mesh' fs' model"
proof (induction fs fs' arbitrary: model rule: list_all2_induct)
  case Nil
  then show ?case by simp
next
  case (Cons f fs f' fs')
  then show ?case by (simp add: addFace_cong [OF Cons.hyps(1)] split: sum.splits)
qed

lemma wellFormedD:
  assumes "wellFormed mesh" and "f \<in> set (faces mesh)" and "i < vertexCountOf (isQuad f)"
  shows "indices f ! i < length (vertices mesh)" and "length (indices f) = 4"
  using assms by (auto simp: wellFormed_def list_all_iff)

lemma wellFormed_slots:
  "wellFormed mesh \<Longrightarrow> f \<in> set (faces mesh) \<Longrightarrow> length (indices f) = 4"
  by (auto simp: wellFormed_def list_all_iff)

lemma cornerPositions_sameCorners:
  assumes "wellFormed mesh" and "wellFormed mesh'"
    and "cornerPositions mesh = cornerPositions mesh'"
  shows "list_all2 (sameCorners mesh mesh') (faces mesh) (faces mesh')"
proof (rule list_all2_all_nthI)
  show len: "length (faces mesh) = length (faces mesh')"
    using arg_cong [OF assms(3), of length] by (simp add: cornerPositions_def)
  fix k
  assume k: "k < length (faces mesh)"
  let ?f = "faces mesh ! k" and ?f' = "faces mesh' ! k"
  have f: "?f \<in> set (faces mesh)" and f': "?f' \<in> set (faces mesh')"
    using k len by simp_all
  have eq: "cornerPositions mesh ! k = cornerPositions mesh' ! k"
    by (simp only: assms(3))
  have pair: "(isQuad ?f,
      map (\<lambda>i. position (vertices mesh ! (indices ?f ! i))) [0..<vertexCountOf (isQuad ?f)]) =
     (isQuad ?f',
      map (\<lambda>i. position (vertices mesh' ! (indices ?f' ! i))) [0..<vertexCountOf (isQuad ?f')])"
    using eq k len unfolding cornerPositions_def by (simp only: nth_map)
  from pair have q: "isQuad ?f = isQuad ?f'" by (rule Pair_inject)
  from pair have "map (\<lambda>i. position (vertices mesh ! (indices ?f ! i))) [0..<vertexCountOf (isQuad ?f)] =
      map (\<lambda>i. position (vertices mesh' ! (indices ?f' ! i))) [0..<vertexCountOf (isQuad ?f)]"
    unfolding q by (rule Pair_inject)
  then have "\<forall>i \<in> set [0..<vertexCountOf (isQuad ?f)].
      position (vertices mesh ! (indices ?f ! i)) = position (vertices mesh' ! (indices ?f' ! i))"
    by (simp only: map_eq_conv)
  then have "position (vertices mesh ! (indices ?f ! i)) = position (vertices mesh' ! (indices ?f' ! i))"
    if "i < vertexCountOf (isQuad ?f)" for i
    using that by simp
  with wellFormedD(1) [OF assms(1) f] wellFormedD(1) [OF assms(2) f'] q
  show "sameCorners mesh mesh' ?f ?f'"
    by (simp add: sameCorners_def)
qed

lemma meshToModel_cornerPositions:
  assumes "wellFormed mesh" and "wellFormed mesh'"
    and "cornerPositions mesh = cornerPositions mesh'"
  shows "meshToModel mesh = meshToModel mesh'"
  unfolding meshToModel_def
  by (rule addFaces_cong [OF cornerPositions_sameCorners [OF assms]])

subsection \<open>Merging coincident vertices\<close>

lemma indexOf_nth: "p \<in> set ps \<Longrightarrow> indexOf ps p < length ps \<and> ps ! indexOf ps p = p"
  by (induction ps) auto

lemma mergeCoincident_corner:
  assumes "wellFormed mesh" and "f \<in> set (faces mesh)" and "i < vertexCountOf (isQuad f)"
  defines "ps \<equiv> remdups (map position (vertices mesh))"
  defines "g \<equiv> f\<lparr>indices := map (\<lambda>j. indexOf ps (position (vertices mesh ! j))) (indices f)\<rparr>"
  shows "indices g ! i < length (vertices (mergeCoincident mesh))"
    and "position (vertices (mergeCoincident mesh) ! (indices g ! i)) =
      position (vertices mesh ! (indices f ! i))"
    and "length (indices g) = 4"
proof -
  let ?p = "position (vertices mesh ! (indices f ! i))"
  note wf = wellFormedD [OF assms(1-3)]
  have i4: "i < length (indices f)"
    using wf(2) assms(3) by (simp add: vertexCountOf_def split: if_splits)
  have "?p \<in> set ps" using wf(1) by (simp add: ps_def)
  note ix = indexOf_nth [OF this]
  have gi: "indices g ! i = indexOf ps ?p" using i4 by (simp add: g_def)
  have vs: "vertices (mergeCoincident mesh) = map mkVertex ps"
    by (simp add: mergeCoincident_def Let_def ps_def)
  show "indices g ! i < length (vertices (mergeCoincident mesh))"
    using ix by (simp add: gi vs)
  show "position (vertices (mergeCoincident mesh) ! (indices g ! i)) = ?p"
    using ix by (simp add: gi vs mkVertex_def)
  show "length (indices g) = 4" using wf(2) by (simp add: g_def)
qed

lemma mergeCoincident_faces:
  "faces (mergeCoincident mesh) =
     map (\<lambda>f. f\<lparr>indices := map (\<lambda>j. indexOf (remdups (map position (vertices mesh)))
                                   (position (vertices mesh ! j))) (indices f)\<rparr>) (faces mesh)"
  by (simp add: mergeCoincident_def Let_def)

lemma mergeCoincident_wellFormed:
  assumes "wellFormed mesh"
  shows "wellFormed (mergeCoincident mesh)"
  unfolding wellFormed_def mergeCoincident_faces
  using mergeCoincident_corner(1) [OF assms] wellFormed_slots [OF assms]
  by (simp add: list_all_iff)

lemma mergeCoincident_cornerPositions:
  assumes "wellFormed mesh"
  shows "cornerPositions (mergeCoincident mesh) = cornerPositions mesh"
  unfolding cornerPositions_def mergeCoincident_faces
  using mergeCoincident_corner(2) [OF assms]
  by (simp add: comp_def)

lemma mergeCoincident_distinct:
  "distinct (map position (vertices (mergeCoincident mesh)))"
  by (simp add: mergeCoincident_def Let_def comp_def mkVertex_def)

section \<open>The lists of a vertex, exactly\<close>

lemma vertexFacesFrom_append:
  "vertexFacesFrom b (fs @ [f]) v =
     vertexFacesFrom b fs v @ replicate (count_list (faceVertices f) v) (int (b + length fs))"
  by (induction fs arbitrary: b) simp_all

lemma vertexFaces_snoc:
  "vertexFaces (fs @ [f]) v =
     vertexFaces fs v @ replicate (count_list (faceVertices f) v) (int (length fs))"
  by (simp add: vertexFaces_def vertexFacesFrom_append)

lemma vertexFacesFrom_none:
  "\<forall>f \<in> set fs. v \<notin> set (faceVertices f) \<Longrightarrow> vertexFacesFrom b fs v = []"
  by (induction fs arbitrary: b) (simp_all add: count_list_0_iff)

lemma vertexEdges_snoc: "vertexEdges (fs @ [f]) u = vertexEdges fs u @ faceSides f u"
  by (simp add: vertexEdges_def)

lemma pushedEdges_none:
  "\<forall>i \<in> set is. int u \<noteq> vis ! i \<and> int u \<noteq> vis ! ((i + 1) mod n) \<Longrightarrow>
   pushedEdges n vis eis is u = []"
  by (induction "is") (simp_all add: pushedEdges_def)

lemma pushedEdges_cong2:
  "\<forall>i \<in> set is. vis ! i = vis' ! i \<and> vis ! ((i + 1) mod n) = vis' ! ((i + 1) mod n) \<and>
      eis ! i = eis' ! i \<Longrightarrow>
   pushedEdges n vis eis is u = pushedEdges n vis' eis' is u"
  unfolding pushedEdges_def by (rule arg_cong [where f = concat]) simp

lemma faceVertices_newFaceRecord:
  "length vis = 4 \<Longrightarrow> faceVertices (newFaceRecord q vis eis) = take (vertexCountOf q) vis"
  by (simp add: faceVertices_def newFaceRecord_def vertexCountOf_def)

lemma faceSides_newFaceRecord:
  assumes "length vis = 4" and "length eis = 4"
  shows "faceSides (newFaceRecord q vis eis) u =
     pushedEdges (vertexCountOf q) vis eis [0..<vertexCountOf q] u"
proof -
  have "0 < vertexCountOf q" by (simp add: vertexCountOf_def)
  then have "\<forall>i \<in> set [0..<vertexCountOf q].
      fr_vertices (newFaceRecord q vis eis) ! i = vis ! i \<and>
      fr_vertices (newFaceRecord q vis eis) ! ((i + 1) mod vertexCountOf q)
        = vis ! ((i + 1) mod vertexCountOf q) \<and>
      fr_edges (newFaceRecord q vis eis) ! i = eis ! i"
    using newFaceRecord_nth [OF assms] by simp
  from pushedEdges_cong2 [OF this] show ?thesis
    by (simp add: faceSides_def)
qed

lemma faceSides_none:
  assumes "\<forall>v \<in> set (faceVertices f). v \<noteq> int u" and "length (fr_vertices f) = 4"
  shows "faceSides f u = []"
proof -
  let ?n = "vertexCountOf (fr_isQuad f)"
  have n: "0 < ?n" "?n \<le> length (fr_vertices f)"
    using assms(2) by (simp_all add: vertexCountOf_def)
  have "fr_vertices f ! i \<noteq> int u" if "i < ?n" for i
  proof -
    have "fr_vertices f ! i \<in> set (faceVertices f)"
      unfolding faceVertices_def using that n by (simp add: set_take_conv_nth)
    with assms(1) show ?thesis by blast
  qed
  with n(1) have "\<forall>i \<in> set [0..<?n]. int u \<noteq> fr_vertices f ! i \<and>
      int u \<noteq> fr_vertices f ! ((i + 1) mod ?n)"
    by (metis atLeastLessThan_iff mod_less_divisor set_upt)
  from pushedEdges_none [OF this] show ?thesis by (simp add: faceSides_def)
qed

lemma face_vertices_ok_none:
  assumes "face_vertices_ok model" and "length (m_vertices model) \<le> u"
  shows "vertexFaces (m_faces model) (int u) = []" and "vertexEdges (m_faces model) u = []"
proof -
  have nv: "\<forall>v \<in> set (faceVertices f). v \<noteq> int u" and l4: "length (fr_vertices f) = 4"
    if "f \<in> set (m_faces model)" for f
  proof -
    from assms(1) that have ok: "\<forall>v \<in> set (faceVertices f). vertex_ok model v"
      and "length (fr_vertices f) = 4"
      by (auto simp: face_vertices_ok_def list_all_iff)
    then show "length (fr_vertices f) = 4" by simp
    show "\<forall>v \<in> set (faceVertices f). v \<noteq> int u"
    proof
      fix v
      assume "v \<in> set (faceVertices f)"
      with ok have "vertex_ok model v" by blast
      with assms(2) show "v \<noteq> int u" by (auto simp: vertex_ok_def)
    qed
  qed
  then show "vertexFaces (m_faces model) (int u) = []"
    unfolding vertexFaces_def by (intro vertexFacesFrom_none) blast
  show "vertexEdges (m_faces model) u = []"
    unfolding vertexEdges_def using faceSides_none [OF nv l4] by simp
qed

lemma length_newFaceRecord [simp]:
  "length vis = 4 \<Longrightarrow> length (fr_vertices (newFaceRecord q vis eis)) = 4"
  "length eis = 4 \<Longrightarrow> length (fr_edges (newFaceRecord q vis eis)) = 4"
  by (simp_all add: newFaceRecord_def vertexCountOf_def)

lemma addFace_reads_invs:
  assumes "addFace mesh f model = Inr model'" and "pos_inv model" and "pair_inv model"
    and "face_vertices_ok model" and "edge_ends_ok model" and "vertex_lists_exact model"
  shows "face_vertices_ok model'" and "edge_ends_ok model'" and "vertex_lists_exact model'"
proof -
  define n where "n = vertexCountOf (isQuad f)"
  define fi where "fi = int (length (m_faces model))"
  from assms(1-3) obtain vis eis new_vs new_es where
    lv: "length vis = 4" and le: "length eis = 4"
    and cok: "\<forall>i < n. corner_ok model' (vis ! i) (position (vertices mesh ! (indices f ! i)))"
    and eok: "\<forall>i < n. edge_ok model' (eis ! i) (vis ! i, vis ! ((i + 1) mod n))"
    and faces: "m_faces model' = m_faces model @ [newFaceRecord (isQuad f) vis eis]"
    and vlen: "length (m_vertices model') = length (m_vertices model) + length new_vs"
    and fr: "fresh_records new_vs"
    and vrec: "\<forall>u < length (m_vertices model').
           vr_position (m_vertices model' ! u) = vr_position ((m_vertices model @ new_vs) ! u) \<and>
           vr_edges (m_vertices model' ! u) =
             vr_edges ((m_vertices model @ new_vs) ! u) @ pushedEdges n vis eis [0..<n] u \<and>
           vr_faces (m_vertices model' ! u) =
             vr_faces ((m_vertices model @ new_vs) ! u) @
               replicate (count_list (take n vis) (int u)) fi"
    and elen: "length (m_edges model') = length (m_edges model) + length new_es"
    and erec: "\<forall>k < length (m_edges model').
           m_edges model' ! k =
             (addFaceToEdge fi ^^ count_list (take n eis) (int k)) ((m_edges model @ new_es) ! k)"
    and cover: "\<forall>k. length (m_edges model) \<le> k \<and> k < length (m_edges model') \<longrightarrow>
           int k \<in> set (take n eis)"
    and vcover: "\<forall>k. length (m_vertices model) \<le> k \<and> k < length (m_vertices model') \<longrightarrow>
           int k \<in> set (take n vis)"
    unfolding n_def fi_def by (rule addFace_cases)
  have n4: "n \<le> 4" and n0: "0 < n" by (simp_all add: n_def vertexCountOf_def)
  have tv: "set (take n vis) = (!) vis ` {0..<n}"
    using lv n4 by (simp add: set_take_conv_nth)
  have te: "set (take n eis) = (!) eis ` {0..<n}"
    using le n4 by (simp add: set_take_conv_nth)
  have vok: "vertex_ok model' (vis ! i)" if "i < n" for i
    using cok that by (simp add: corner_ok_def vertex_ok_def)
  have mono: "vertex_ok model' v" if "vertex_ok model v" for v
    using that vlen by (simp add: vertex_ok_def)
  show "face_vertices_ok model'"
    unfolding face_vertices_ok_def faces
  proof (simp add: lv le faceVertices_newFaceRecord n_def [symmetric], intro conjI)
    show "list_all (\<lambda>f. length (fr_vertices f) = 4 \<and> length (fr_edges f) = 4 \<and>
        list_all (vertex_ok model') (faceVertices f)) (m_faces model)"
      using assms(4) mono by (auto simp: face_vertices_ok_def list_all_iff)
    show "list_all (vertex_ok model') (take n vis)"
      using vok by (auto simp: list_all_iff tv)
  qed
  show "edge_ends_ok model'"
    unfolding edge_ends_ok_def list_all_length
  proof (intro allI impI)
    fix k
    assume k: "k < length (m_edges model')"
    let ?e = "m_edges model' ! k"
    show "vertex_ok model' (low_vertex ?e) \<and> vertex_ok model' (high_vertex ?e)"
    proof (cases "k < length (m_edges model)")
      case True
      from erec k have "endpoints ?e = endpoints ((m_edges model @ new_es) ! k)" by simp
      with True have "endpoints ?e = endpoints (m_edges model ! k)" by (simp add: nth_append)
      moreover from assms(5) True
      have "vertex_ok model (low_vertex (m_edges model ! k)) \<and>
          vertex_ok model (high_vertex (m_edges model ! k))"
        by (simp add: edge_ends_ok_def list_all_length)
      ultimately show ?thesis using mono by (simp add: endpoints_def)
    next
      case False
      with cover k have "int k \<in> set (take n eis)" by simp
      then obtain i where i: "i < n" "eis ! i = int k" by (auto simp: te)
      with eok have "endpoints ?e = sortedPair (vis ! i, vis ! ((i + 1) mod n))"
        by (auto simp: edge_ok_def)
      moreover have "vertex_ok model' (vis ! i)" "vertex_ok model' (vis ! ((i + 1) mod n))"
        using vok i(1) n0 by simp_all
      ultimately show ?thesis
        by (auto simp: endpoints_def sortedPair_def split: if_splits)
    qed
  qed
  show "vertex_lists_exact model'"
    unfolding vertex_lists_exact_def
  proof (intro allI impI)
    fix u
    assume u: "u < length (m_vertices model')"
    let ?base = "(m_vertices model @ new_vs) ! u"
    have base: "vr_faces ?base = vertexFaces (m_faces model) (int u) \<and>
        vr_edges ?base = vertexEdges (m_faces model) u \<and>
        (vr_faces ?base \<noteq> [] \<or> int u \<in> set (take n vis))"
    proof (cases "u < length (m_vertices model)")
      case True
      with assms(6) have "vr_faces (m_vertices model ! u) = vertexFaces (m_faces model) (int u)"
        "vr_faces (m_vertices model ! u) \<noteq> []"
        "vr_edges (m_vertices model ! u) = vertexEdges (m_faces model) u"
        unfolding vertex_lists_exact_def by blast+
      with True show ?thesis by (simp only: nth_append if_True simp_thms)
    next
      case False
      then have ge: "length (m_vertices model) \<le> u" by simp
      from False u vlen have "u - length (m_vertices model) < length new_vs" by simp
      from fresh_records_nth [OF fr this] False face_vertices_ok_none [OF assms(4) ge]
        vcover ge u
      show ?thesis by (simp add: nth_append)
    qed
    have "vr_faces (m_vertices model' ! u) = vertexFaces (m_faces model') (int u)"
      using vrec u base
      by (simp add: faces vertexFaces_snoc faceVertices_newFaceRecord [OF lv] n_def fi_def)
    moreover have "vr_edges (m_vertices model' ! u) = vertexEdges (m_faces model') u"
      using vrec u base
      by (simp add: faces vertexEdges_snoc faceSides_newFaceRecord [OF lv le] n_def)
    moreover have "vr_faces (m_vertices model' ! u) \<noteq> []"
      using vrec u base by (auto simp: count_list_0_iff)
    ultimately show "vr_faces (m_vertices model' ! u) = vertexFaces (m_faces model') (int u) \<and>
        vr_faces (m_vertices model' ! u) \<noteq> [] \<and>
        vr_edges (m_vertices model' ! u) = vertexEdges (m_faces model') u"
      by simp
  qed
qed

lemma reads_inv_emptyModel: "reads_inv emptyModel"
  unfolding reads_inv_def
  by (simp add: builder_inv_emptyModel)
    (simp add: emptyModel_def face_vertices_ok_def edge_ends_ok_def vertex_lists_exact_def)

lemma addFace_reads_inv:
  assumes "addFace mesh f model = Inr model'" and "reads_inv model"
  shows "reads_inv model'"
proof -
  from assms(2) have b: "builder_inv model" and "face_vertices_ok model" "edge_ends_ok model"
    "vertex_lists_exact model" by (simp_all add: reads_inv_def)
  moreover from b have "pos_inv model" "pair_inv model" by (simp_all add: builder_inv_def)
  ultimately show ?thesis
    using addFace_reads_invs [OF assms(1)] addFace_builder_inv [OF assms(1) b]
    by (simp add: reads_inv_def)
qed

lemma addFaces_reads_inv:
  "addFaces mesh fs model = Inr model' \<Longrightarrow> reads_inv model \<Longrightarrow> reads_inv model'"
proof (induction fs arbitrary: model)
  case Nil
  then show ?case by simp
next
  case (Cons f fs)
  from Cons.prems(1) obtain model1
    where a: "addFace mesh f model = Inr model1" and r: "addFaces mesh fs model1 = Inr model'"
    by (auto split: sum.splits)
  from Cons.IH [OF r addFace_reads_inv [OF a Cons.prems(2)]] show ?case .
qed

lemma meshToModel_reads_inv: "meshToModel mesh = Inr model \<Longrightarrow> reads_inv model"
  unfolding meshToModel_def by (rule addFaces_reads_inv [OF _ reads_inv_emptyModel])

section \<open>Faces with distinct corners\<close>

lemma sortedPair_eq_iff:
  "sortedPair (a, b) = sortedPair (c, d) \<longleftrightarrow> (a = c \<and> b = d) \<or> (a = d \<and> b = c)"
  by (auto simp: sortedPair_def)

lemma sortedPair_mem:
  "u = fst (sortedPair (a, b)) \<or> u = snd (sortedPair (a, b)) \<longleftrightarrow> u = a \<or> u = b"
  by (auto simp: sortedPair_def)

lemma sides3:
  fixes En :: "int \<Rightarrow> int \<times> int"
  assumes "distinct [a, b, c]"
    and "En p = sortedPair (a, b)" and "En q = sortedPair (b, c)" and "En r = sortedPair (c, a)"
  shows "distinct [p, q, r]"
    and "count_list (pushedEdges 3 [a, b, c, d] [p, q, r, s] [0..<3] u) e =
      (if e \<in> set [p, q, r] \<and> (int u = fst (En e) \<or> int u = snd (En e)) then 1 else 0)"
proof -
  have ne: "p \<noteq> q" "q \<noteq> r" "p \<noteq> r"
    using assms by (auto simp: sortedPair_eq_iff dest!: arg_cong [where f = En])
  then show "distinct [p, q, r]" by simp
  have m: "int u = fst (En p) \<or> int u = snd (En p) \<longleftrightarrow> int u = a \<or> int u = b"
    "int u = fst (En q) \<or> int u = snd (En q) \<longleftrightarrow> int u = b \<or> int u = c"
    "int u = fst (En r) \<or> int u = snd (En r) \<longleftrightarrow> int u = c \<or> int u = a"
    by (simp_all only: assms(2-4) sortedPair_mem)
  consider "e = p" | "e = q" | "e = r" | "e \<notin> set [p, q, r]" by auto
  then show "count_list (pushedEdges 3 [a, b, c, d] [p, q, r, s] [0..<3] u) e =
      (if e \<in> set [p, q, r] \<and> (int u = fst (En e) \<or> int u = snd (En e)) then 1 else 0)"
  proof cases
    case 1
    with ne m(1) assms(1) show ?thesis by (auto simp: pushedEdges_def upt3)
  next
    case 2
    with ne m(2) assms(1) show ?thesis by (auto simp: pushedEdges_def upt3)
  next
    case 3
    with ne m(3) assms(1) show ?thesis by (auto simp: pushedEdges_def upt3)
  next
    case 4
    then show ?thesis by (auto simp: pushedEdges_def upt3)
  qed
qed

lemma sides4:
  fixes En :: "int \<Rightarrow> int \<times> int"
  assumes "distinct [a, b, c, d]"
    and "En p = sortedPair (a, b)" and "En q = sortedPair (b, c)" and "En r = sortedPair (c, d)"
    and "En s = sortedPair (d, a)"
  shows "distinct [p, q, r, s]"
    and "count_list (pushedEdges 4 [a, b, c, d] [p, q, r, s] [0..<4] u) e =
      (if e \<in> set [p, q, r, s] \<and> (int u = fst (En e) \<or> int u = snd (En e)) then 1 else 0)"
proof -
  have ne: "p \<noteq> q" "q \<noteq> r" "p \<noteq> r" "p \<noteq> s" "q \<noteq> s" "r \<noteq> s"
    using assms by (auto simp: sortedPair_eq_iff dest!: arg_cong [where f = En])
  then show "distinct [p, q, r, s]" by simp
  have m: "int u = fst (En p) \<or> int u = snd (En p) \<longleftrightarrow> int u = a \<or> int u = b"
    "int u = fst (En q) \<or> int u = snd (En q) \<longleftrightarrow> int u = b \<or> int u = c"
    "int u = fst (En r) \<or> int u = snd (En r) \<longleftrightarrow> int u = c \<or> int u = d"
    "int u = fst (En s) \<or> int u = snd (En s) \<longleftrightarrow> int u = d \<or> int u = a"
    by (simp_all only: assms(2-5) sortedPair_mem)
  consider "e = p" | "e = q" | "e = r" | "e = s" | "e \<notin> set [p, q, r, s]" by auto
  then show "count_list (pushedEdges 4 [a, b, c, d] [p, q, r, s] [0..<4] u) e =
      (if e \<in> set [p, q, r, s] \<and> (int u = fst (En e) \<or> int u = snd (En e)) then 1 else 0)"
  proof cases
    case 1
    with ne m(1) assms(1) show ?thesis by (auto simp: pushedEdges_def upt4)
  next
    case 2
    with ne m(2) assms(1) show ?thesis by (auto simp: pushedEdges_def upt4)
  next
    case 3
    with ne m(3) assms(1) show ?thesis by (auto simp: pushedEdges_def upt4)
  next
    case 4
    with ne m(4) assms(1) show ?thesis by (auto simp: pushedEdges_def upt4)
  next
    case 5
    then show ?thesis by (auto simp: pushedEdges_def upt4)
  qed
qed

lemma face_sides_count:
  assumes "length (fr_vertices g) = 4" and "length (fr_edges g) = 4"
    and "distinct (faceVertices g)"
    and "\<forall>i < vertexCountOf (fr_isQuad g).
      endpoints (es ! nat (fr_edges g ! i)) =
        sortedPair (fr_vertices g ! i, fr_vertices g ! ((i + 1) mod vertexCountOf (fr_isQuad g)))"
  shows "distinct (faceEdges g)"
    and "count_list (faceSides g u) e =
      (if e \<in> set (faceEdges g) \<and>
          (int u = low_vertex (es ! nat e) \<or> int u = high_vertex (es ! nat e)) then 1 else 0)"
proof -
  from assms(1) obtain a b c d where vs: "fr_vertices g = [a, b, c, d]" by (rule length4E)
  from assms(2) obtain p q r s where eds: "fr_edges g = [p, q, r, s]" by (rule length4E)
  define En where "En k = endpoints (es ! nat k)" for k
  have sel: "low_vertex (es ! nat k) = fst (En k)" "high_vertex (es ! nat k) = snd (En k)" for k
    by (simp_all add: En_def endpoints_def)
  have both: "distinct (faceEdges g) \<and> count_list (faceSides g u) e =
      (if e \<in> set (faceEdges g) \<and> (int u = fst (En e) \<or> int u = snd (En e)) then 1 else 0)"
  proof (cases "fr_isQuad g")
    case True
    then have n: "vertexCountOf (fr_isQuad g) = 4" by (simp add: vertexCountOf_def)
    from assms(3) have d: "distinct [a, b, c, d]" by (simp add: faceVertices_def n vs)
    from assms(4) [unfolded n, rule_format, of 0] assms(4) [unfolded n, rule_format, of 1]
      assms(4) [unfolded n, rule_format, of 2] assms(4) [unfolded n, rule_format, of 3]
    have "En p = sortedPair (a, b)" "En q = sortedPair (b, c)" "En r = sortedPair (c, d)"
      "En s = sortedPair (d, a)"
      by (simp_all add: vs eds En_def)
    from sides4 [OF d this] show ?thesis
      by (simp add: faceSides_def faceEdges_def n vs eds)
  next
    case False
    then have n: "vertexCountOf (fr_isQuad g) = 3" by (simp add: vertexCountOf_def)
    from assms(3) have d: "distinct [a, b, c]" by (simp add: faceVertices_def n vs)
    from assms(4) [unfolded n, rule_format, of 0] assms(4) [unfolded n, rule_format, of 1]
      assms(4) [unfolded n, rule_format, of 2]
    have "En p = sortedPair (a, b)" "En q = sortedPair (b, c)" "En r = sortedPair (c, a)"
      by (simp_all add: vs eds En_def)
    from sides3 [OF d this] show ?thesis
      by (simp add: faceSides_def faceEdges_def n vs eds)
  qed
  then show "distinct (faceEdges g)" by simp
  from both show "count_list (faceSides g u) e =
      (if e \<in> set (faceEdges g) \<and>
          (int u = low_vertex (es ! nat e) \<or> int u = high_vertex (es ! nat e)) then 1 else 0)"
    by (simp only: sel)
qed

lemma count_list_concat:
  "count_list (concat xss) e = sum_list (map (\<lambda>xs. count_list xs e) xss)"
  by (induction xss) simp_all

lemma length_facesSharingFrom:
  "length (facesSharingFrom b fs e) = sum_list (map (\<lambda>f. if e \<in> set (faceEdges f) then 1 else 0) fs)"
  by (induction fs arbitrary: b) simp_all

lemma vertexFacesFrom_distinct:
  "\<forall>f \<in> set fs. distinct (faceVertices f) \<Longrightarrow> vertexFacesFrom b fs v = facesAroundFrom b fs v"
  by (induction fs arbitrary: b) (simp_all add: count_list_distinct)

lemma vertexEdges_count:
  assumes "\<forall>f \<in> set fs. count_list (faceSides f u) e = (if e \<in> set (faceEdges f) \<and> P then 1 else 0)"
  shows "count_list (vertexEdges fs u) e = (if P then length (facesSharing fs e) else 0)"
proof -
  have "count_list (vertexEdges fs u) e = sum_list (map (\<lambda>f. count_list (faceSides f u) e) fs)"
    by (simp add: vertexEdges_def count_list_concat comp_def)
  also have "\<dots> = sum_list (map (\<lambda>f. if e \<in> set (faceEdges f) \<and> P then 1 else 0) fs)"
    using assms by (intro arg_cong [where f = sum_list] map_cong) simp_all
  also have "\<dots> = (if P then length (facesSharing fs e) else 0)"
    by (simp add: facesSharing_def length_facesSharingFrom)
  finally show ?thesis .
qed

lemma addFace_faces_distinct:
  assumes "addFace mesh f model = Inr model'" and "pos_inv model" and "pair_inv model"
    and "faces_distinct model"
    and "distinct (map (\<lambda>i. position (vertices mesh ! (indices f ! i))) [0..<vertexCountOf (isQuad f)])"
  shows "faces_distinct model'"
proof -
  define n where "n = vertexCountOf (isQuad f)"
  define g where "g i = position (vertices mesh ! (indices f ! i))" for i
  from assms(1-3) obtain vis eis new_vs new_es where
    lv: "length vis = 4"
    and cok: "\<forall>i < n. corner_ok model' (vis ! i) (g i)"
    and faces: "m_faces model' = m_faces model @ [newFaceRecord (isQuad f) vis eis]"
    unfolding n_def g_def by (rule addFace_cases)
  have n4: "n \<le> 4" by (simp add: n_def vertexCountOf_def)
  have "g = (\<lambda>i. position (vertices mesh ! (indices f ! i)))"
    by (rule ext) (simp add: g_def)
  with assms(5) have d: "distinct (map g [0..<n])" by (simp only: n_def)
  have "vis ! i \<noteq> vis ! j" if "i < n" "j < n" "i \<noteq> j" for i j
  proof
    assume eq: "vis ! i = vis ! j"
    from cok that(1) have "vr_position (m_vertices model' ! nat (vis ! i)) = g i"
      by (simp add: corner_ok_def)
    moreover from cok that(2) have "vr_position (m_vertices model' ! nat (vis ! j)) = g j"
      by (simp add: corner_ok_def)
    ultimately have "g i = g j" by (simp add: eq)
    moreover from d have "inj_on g {0..<n}" by (simp add: distinct_map)
    ultimately show False using that by (auto dest: inj_onD)
  qed
  then have "distinct (take n vis)"
    using lv n4 by (simp add: distinct_conv_nth)
  with assms(4) show ?thesis
    by (simp add: faces_distinct_def faces faceVertices_newFaceRecord [OF lv] n_def)
qed

lemma addFaces_faces_distinct:
  assumes "addFaces mesh fs model = Inr model'" and "builder_inv model" and "faces_distinct model"
    and "\<forall>f \<in> set fs. distinct (map (\<lambda>i. position (vertices mesh ! (indices f ! i)))
      [0..<vertexCountOf (isQuad f)])"
  shows "faces_distinct model'"
  using assms
proof (induction fs arbitrary: model)
  case Nil
  then show ?case by simp
next
  case (Cons f fs)
  from Cons.prems(1) obtain model1
    where a: "addFace mesh f model = Inr model1" and r: "addFaces mesh fs model1 = Inr model'"
    by (auto split: sum.splits)
  from Cons.prems(2) have pp: "pos_inv model" "pair_inv model" by (simp_all add: builder_inv_def)
  from Cons.prems(4) have df: "distinct (map (\<lambda>i. position (vertices mesh ! (indices f ! i)))
      [0..<vertexCountOf (isQuad f)])"
    and rest: "\<forall>f \<in> set fs. distinct (map (\<lambda>i. position (vertices mesh ! (indices f ! i)))
      [0..<vertexCountOf (isQuad f)])"
    by simp_all
  from Cons.IH [OF r addFace_builder_inv [OF a Cons.prems(2)]
      addFace_faces_distinct [OF a pp Cons.prems(3) df] rest]
  show ?case .
qed

lemma meshToModel_faces_distinct:
  assumes "meshToModel mesh = Inr model" and "distinctCorners mesh"
  shows "faces_distinct model"
proof (rule addFaces_faces_distinct [OF assms(1) [unfolded meshToModel_def] builder_inv_emptyModel])
  show "faces_distinct emptyModel" by (simp add: faces_distinct_def emptyModel_def)
  show "\<forall>f \<in> set (faces mesh). distinct (map (\<lambda>i. position (vertices mesh ! (indices f ! i)))
      [0..<vertexCountOf (isQuad f)])"
    using assms(2) by (simp add: distinctCorners_def list_all_iff)
qed

lemma meshToModel_distinct_lists:
  assumes "meshToModel mesh = Inr model" and "distinctCorners mesh"
    and "u < length (m_vertices model)"
  shows "vr_faces (m_vertices model ! u) = facesAround (m_faces model) (int u)"
    and "vr_faces (m_vertices model ! u) \<noteq> []"
    and "\<forall>f \<in> set (m_faces model). distinct (faceVertices f) \<and> distinct (faceEdges f)"
    and "count_list (vr_edges (m_vertices model ! u)) e =
      (if int u = low_vertex (m_edges model ! nat e) \<or> int u = high_vertex (m_edges model ! nat e)
       then length (facesSharing (m_faces model) e) else 0)"
proof -
  from meshToModel_reads_inv [OF assms(1)]
  have b: "builder_inv model" and fv: "face_vertices_ok model" and ex: "vertex_lists_exact model"
    by (simp_all add: reads_inv_def)
  from b have pi: "pair_inv model" and fpi: "face_pairs_inv model"
    by (simp_all add: builder_inv_def)
  from meshToModel_faces_distinct [OF assms(1,2)]
  have fd: "\<forall>f \<in> set (m_faces model). distinct (faceVertices f)"
    by (simp add: faces_distinct_def list_all_iff)
  from ex assms(3)
  have vf: "vr_faces (m_vertices model ! u) = vertexFaces (m_faces model) (int u)"
    and ne: "vr_faces (m_vertices model ! u) \<noteq> []"
    and ve: "vr_edges (m_vertices model ! u) = vertexEdges (m_faces model) u"
    unfolding vertex_lists_exact_def by blast+
  show "vr_faces (m_vertices model ! u) = facesAround (m_faces model) (int u)"
    by (simp add: vf vertexFaces_def facesAround_def vertexFacesFrom_distinct [OF fd])
  show "vr_faces (m_vertices model ! u) \<noteq> []" by (rule ne)
  have side: "distinct (faceEdges g) \<and>
      (\<forall>u e. count_list (faceSides g u) e =
        (if e \<in> set (faceEdges g) \<and>
          (int u = low_vertex (m_edges model ! nat e) \<or> int u = high_vertex (m_edges model ! nat e))
         then 1 else 0))"
    if g: "g \<in> set (m_faces model)" for g
  proof -
    from fv g have l: "length (fr_vertices g) = 4" "length (fr_edges g) = 4"
      by (auto simp: face_vertices_ok_def list_all_iff)
    from fd g have d: "distinct (faceVertices g)" by blast
    have j: "\<forall>i < vertexCountOf (fr_isQuad g).
      endpoints (m_edges model ! nat (fr_edges g ! i)) =
        sortedPair (fr_vertices g ! i, fr_vertices g ! ((i + 1) mod vertexCountOf (fr_isQuad g)))"
      using face_edge_joins_corners [OF pi fpi g] by blast
    from face_sides_count [OF l d j] show ?thesis by blast
  qed
  with fd show "\<forall>f \<in> set (m_faces model). distinct (faceVertices f) \<and> distinct (faceEdges f)"
    by blast
  have "\<forall>f \<in> set (m_faces model). count_list (faceSides f u) e =
      (if e \<in> set (faceEdges f) \<and>
          (int u = low_vertex (m_edges model ! nat e) \<or> int u = high_vertex (m_edges model ! nat e))
       then 1 else 0)"
    using side by blast
  from vertexEdges_count [OF this]
  show "count_list (vr_edges (m_vertices model ! u)) e =
      (if int u = low_vertex (m_edges model ! nat e) \<or> int u = high_vertex (m_edges model ! nat e)
       then length (facesSharing (m_faces model) e) else 0)"
    by (simp only: ve)
qed

section \<open>What the builder guarantees\<close>

lemma built_threeTriangleFan: "meshToModel threeTriangleFan = Inr (builtModel threeTriangleFan)"
  by (simp add: builtModel_def threeTriangleFan_def build_defs upt3 upt4)

lemma built_degenerateFan: "meshToModel degenerateFan = Inr (builtModel degenerateFan)"
  by (simp add: builtModel_def degenerateFan_def build_defs upt3 upt4)

lemma built_twoTriangles: "builtModel twoTriangles = twoTrianglesModel"
  by (simp add: builtModel_def meshToModel_twoTriangles)

lemma slotsAfter_face_count:
  "occ \<noteq> [] \<Longrightarrow> fst (slotsAfter occ) = 1 \<or> fst (slotsAfter occ) = 2"
  by (cases occ; cases "tl occ") (auto simp: slotsAfter_def)

text \<open>
  Claim C8, as the code has it. After the builder has run, every edge record has a
  \<open>face_count\<close> of 1 or 2, the number of its incidences capped at 2, and its two slots
  hold the first two incidences in scan order, \<open>-1\<close> filling a slot that is left. An
  incidence is a face listing the edge in its own edge array, counted once for each of
  its sides on the edge; every incidence, kept or left out, is such a face. Where no face
  lists an edge twice, the incidences are the faces sharing the edge, each once.
\<close>

theorem edge_slots_keep_first_two:
  "meshToModel mesh = Inr model \<longrightarrow>
     (\<forall>k < length (m_edges model).
        (face_count (m_edges model ! k) = 1 \<or> face_count (m_edges model ! k) = 2) \<and>
        face_count (m_edges model ! k) = int (min 2 (length (incidences (m_faces model) (int k)))) \<and>
        er_faces (m_edges model ! k) = take 2 (incidences (m_faces model) (int k) @ [- 1, - 1]) \<and>
        sorted (incidences (m_faces model) (int k)) \<and>
        (\<forall>fi \<in> set (incidences (m_faces model) (int k)).
           0 \<le> fi \<and> nat fi < length (m_faces model) \<and>
           int k \<in> set (faceEdges (m_faces model ! nat fi))) \<and>
        ((\<forall>f \<in> set (m_faces model). distinct (faceEdges f)) \<longrightarrow>
           incidences (m_faces model) (int k) = facesSharing (m_faces model) (int k)))"
proof (intro impI allI)
  fix k
  assume built: "meshToModel mesh = Inr model" and k: "k < length (m_edges model)"
  let ?occ = "incidences (m_faces model) (int k)"
  from meshToModel_builder_inv [OF built] k
  have ne: "?occ \<noteq> []"
    and sl: "(face_count (m_edges model ! k), er_faces (m_edges model ! k)) = slotsAfter ?occ"
    by (simp_all add: builder_inv_def edge_faces_inv_def)
  from sl have fc: "face_count (m_edges model ! k) = fst (slotsAfter ?occ)"
    and ef: "er_faces (m_edges model ! k) = snd (slotsAfter ?occ)"
    by (metis fst_conv, metis snd_conv)
  have a: "face_count (m_edges model ! k) = 1 \<or> face_count (m_edges model ! k) = 2"
    unfolding fc by (rule slotsAfter_face_count [OF ne])
  have b: "face_count (m_edges model ! k) = int (min 2 (length ?occ))"
    and c: "er_faces (m_edges model ! k) = take 2 (?occ @ [- 1, - 1])"
    by (simp_all add: fc ef slotsAfter_def)
  have d: "sorted ?occ"
    by (simp add: incidences_def incidencesFrom_sorted)
  have e: "\<forall>fi \<in> set ?occ. 0 \<le> fi \<and> nat fi < length (m_faces model) \<and>
           int k \<in> set (faceEdges (m_faces model ! nat fi))"
    by (blast dest: incidences_mem)
  have f: "(\<forall>f \<in> set (m_faces model). distinct (faceEdges f)) \<longrightarrow>
           ?occ = facesSharing (m_faces model) (int k)"
    by (blast intro: incidences_distinct_faces)
  from a b c d e f
  show "(face_count (m_edges model ! k) = 1 \<or> face_count (m_edges model ! k) = 2) \<and>
        face_count (m_edges model ! k) = int (min 2 (length ?occ)) \<and>
        er_faces (m_edges model ! k) = take 2 (?occ @ [- 1, - 1]) \<and>
        sorted ?occ \<and>
        (\<forall>fi \<in> set ?occ. 0 \<le> fi \<and> nat fi < length (m_faces model) \<and>
           int k \<in> set (faceEdges (m_faces model ! nat fi))) \<and>
        ((\<forall>f \<in> set (m_faces model). distinct (faceEdges f)) \<longrightarrow>
           ?occ = facesSharing (m_faces model) (int k))"
    by blast
qed

lemmas fan_eval = builtModel_def threeTriangleFan_def degenerateFan_def build_defs upt3 upt4
  incidences_def facesSharing_def faceEdges_def

theorem edge_slots_keep_first_two_witness:
  "meshToModel threeTriangleFan = Inr (builtModel threeTriangleFan) \<and>
   (0::nat) < length (m_edges (builtModel threeTriangleFan)) \<and>
   list_all (\<lambda>f. distinct (faceEdges f)) (m_faces (builtModel threeTriangleFan)) \<and>
   facesSharing (m_faces (builtModel threeTriangleFan)) 0 = [0, 1, 2] \<and>
   face_count (m_edges (builtModel threeTriangleFan) ! 0) = 2 \<and>
   er_faces (m_edges (builtModel threeTriangleFan) ! 0) = [0, 1] \<and>
   0 \<in> set (faceEdges (m_faces (builtModel threeTriangleFan) ! 2))"
proof -
  have k: "(0::nat) < length (m_edges (builtModel threeTriangleFan))"
    by (simp add: fan_eval)
  have dist: "\<forall>f \<in> set (m_faces (builtModel threeTriangleFan)). distinct (faceEdges f)"
    by (simp add: fan_eval)
  have sh: "facesSharing (m_faces (builtModel threeTriangleFan)) 0 = [0, 1, 2]"
    by (simp add: fan_eval)
  from edge_slots_keep_first_two [of threeTriangleFan "builtModel threeTriangleFan"]
    built_threeTriangleFan k
  have "face_count (m_edges (builtModel threeTriangleFan) ! 0)
          = int (min 2 (length (incidences (m_faces (builtModel threeTriangleFan)) (int 0))))"
    and "er_faces (m_edges (builtModel threeTriangleFan) ! 0)
          = take 2 (incidences (m_faces (builtModel threeTriangleFan)) (int 0) @ [- 1, - 1])"
    and "\<forall>fi \<in> set (incidences (m_faces (builtModel threeTriangleFan)) (int 0)).
           0 \<le> fi \<and> nat fi < length (m_faces (builtModel threeTriangleFan)) \<and>
           int 0 \<in> set (faceEdges (m_faces (builtModel threeTriangleFan) ! nat fi))"
    and "incidences (m_faces (builtModel threeTriangleFan)) (int 0)
          = facesSharing (m_faces (builtModel threeTriangleFan)) (int 0)"
    using dist by blast+
  with sh built_threeTriangleFan k dist show ?thesis
    by (simp add: list_all_iff)
qed

text \<open>
  Three faces share edge 0 of this mesh, the first of them with two sides on it (two of
  its corners are at one position): both slots of the edge hold face 0, not the first two
  faces 0 and 1.
\<close>

theorem edge_slots_counterexample:
  "meshToModel degenerateFan = Inr (builtModel degenerateFan) \<and>
   facesSharing (m_faces (builtModel degenerateFan)) 0 = [0, 1, 2] \<and>
   er_faces (m_edges (builtModel degenerateFan) ! 0) = [0, 0] \<and>
   er_faces (m_edges (builtModel degenerateFan) ! 0)
     \<noteq> take 2 (facesSharing (m_faces (builtModel degenerateFan)) 0)"
  by (simp add: built_degenerateFan) (simp add: fan_eval)

text \<open>
  Claim C9. After the builder has run, the incident-edge list of every vertex record is
  exactly twice as long as its incident-face list, which is not empty; the edge list is a
  list with repetitions, and the average of the edge midpoints that the repositioning takes
  over it weights the midpoint of every edge by the number of times the edge occurs in it.
  On a mesh whose faces have pairwise distinct corner positions, the face list holds the
  faces around the vertex, each once, and an edge of the vertex occurs in the edge list
  once for every face that shares the edge (an edge that does not end at the vertex does
  not occur).
\<close>

theorem vertex_edge_list_twice_face_list:
  "meshToModel mesh = Inr model \<longrightarrow>
     (\<forall>u < length (m_vertices model).
        length (vr_edges (m_vertices model ! u)) = 2 * length (vr_faces (m_vertices model ! u)) \<and>
        vr_faces (m_vertices model ! u) \<noteq> [] \<and>
        avgEdgeMidOf model oldPositions (m_vertices model ! u) =
          vdiv (vsum (map (\<lambda>e. smul (of_nat (count_list (vr_edges (m_vertices model ! u)) e))
                                  (edgeMid model oldPositions e))
                       (remdups (vr_edges (m_vertices model ! u)))))
               (of_nat (length (vr_edges (m_vertices model ! u)))) \<and>
        (distinctCorners mesh \<longrightarrow>
           vr_faces (m_vertices model ! u) = facesAround (m_faces model) (int u) \<and>
           (\<forall>k < length (m_edges model).
              count_list (vr_edges (m_vertices model ! u)) (int k) =
                (if int u = low_vertex (m_edges model ! k) \<or> int u = high_vertex (m_edges model ! k)
                 then length (facesSharing (m_faces model) (int k)) else 0))))"
proof (intro impI allI conjI)
  fix u
  assume built: "meshToModel mesh = Inr model" and u: "u < length (m_vertices model)"
  show "length (vr_edges (m_vertices model ! u)) = 2 * length (vr_faces (m_vertices model ! u))"
    by (rule meshToModel_vertex_lists [OF built u])
  from meshToModel_reads_inv [OF built] have "vertex_lists_exact model"
    by (simp add: reads_inv_def)
  with u show "vr_faces (m_vertices model ! u) \<noteq> []"
    unfolding vertex_lists_exact_def by blast
  show "avgEdgeMidOf model oldPositions (m_vertices model ! u) =
          vdiv (vsum (map (\<lambda>e. smul (of_nat (count_list (vr_edges (m_vertices model ! u)) e))
                                  (edgeMid model oldPositions e))
                       (remdups (vr_edges (m_vertices model ! u)))))
               (of_nat (length (vr_edges (m_vertices model ! u))))"
    by (rule avgEdgeMidOf_weighted)
  assume dc: "distinctCorners mesh"
  show "vr_faces (m_vertices model ! u) = facesAround (m_faces model) (int u)"
    by (rule meshToModel_distinct_lists(1) [OF built dc u])
  fix k
  assume "k < length (m_edges model)"
  from meshToModel_distinct_lists(4) [OF built dc u, of "int k"]
  show "count_list (vr_edges (m_vertices model ! u)) (int k) =
      (if int u = low_vertex (m_edges model ! k) \<or> int u = high_vertex (m_edges model ! k)
       then length (facesSharing (m_faces model) (int k)) else 0)"
    by simp
qed

theorem vertex_edge_list_twice_face_list_witness:
  "meshToModel twoTriangles = Inr twoTrianglesModel \<and> distinctCorners twoTriangles \<and>
   (0::nat) < length (m_vertices twoTrianglesModel) \<and>
   (2::nat) < length (m_edges twoTrianglesModel) \<and>
   vr_edges (m_vertices twoTrianglesModel ! 0) = [0, 2, 2, 4] \<and>
   vr_faces (m_vertices twoTrianglesModel ! 0) = [0, 1] \<and>
   length (vr_edges (m_vertices twoTrianglesModel ! 0)) =
     2 * length (vr_faces (m_vertices twoTrianglesModel ! 0)) \<and>
   facesAround (m_faces twoTrianglesModel) 0 = [0, 1] \<and>
   facesSharing (m_faces twoTrianglesModel) 2 = [0, 1] \<and>
   count_list (vr_edges (m_vertices twoTrianglesModel ! 0)) 2 = 2 \<and>
   avgEdgeMidOf twoTrianglesModel (map vr_position (m_vertices twoTrianglesModel))
     (m_vertices twoTrianglesModel ! 0) = (3 / 8, 3 / 8, 0)"
proof -
  let ?M = twoTrianglesModel
  have u: "(0::nat) < length (m_vertices ?M)" and k: "(2::nat) < length (m_edges ?M)"
    by (simp_all add: twoTrianglesModel_def)
  have dc: "distinctCorners twoTriangles"
    by (simp add: distinctCorners_def twoTriangles_def vertexCountOf_def upt3 mkVertex_def)
  have v: "m_vertices ?M ! 0 =
      \<lparr>vr_position = (0, 0, 0), vr_edges = [0, 2, 2, 4], vr_faces = [0, 1]\<rparr>"
    by (simp add: twoTrianglesModel_def)
  have e: "low_vertex (m_edges ?M ! 2) = 0"
    by (simp add: twoTrianglesModel_def)
  have mids: "edgeMid ?M (map vr_position (m_vertices ?M)) 0 = (1 / 2, 0, 0)"
    "edgeMid ?M (map vr_position (m_vertices ?M)) 2 = (1 / 2, 1 / 2, 0)"
    "edgeMid ?M (map vr_position (m_vertices ?M)) 4 = (0, 1 / 2, 0)"
    by (simp_all add: edgeMid_def twoTrianglesModel_def)
  have lists: "facesAround (m_faces ?M) 0 = [0, 1]" "facesSharing (m_faces ?M) 2 = [0, 1]"
    by (simp_all add: facesAround_def facesSharing_def faceVertices_def faceEdges_def
        twoTrianglesModel_def vertexCountOf_def)
  note t = vertex_edge_list_twice_face_list [of twoTriangles ?M "map vr_position (m_vertices ?M)",
      rule_format, OF meshToModel_twoTriangles u]
  from t have a: "length (vr_edges (m_vertices ?M ! 0)) = 2 * length (vr_faces (m_vertices ?M ! 0))"
    and b: "avgEdgeMidOf ?M (map vr_position (m_vertices ?M)) (m_vertices ?M ! 0) =
          vdiv (vsum (map (\<lambda>e. smul (of_nat (count_list (vr_edges (m_vertices ?M ! 0)) e))
                                  (edgeMid ?M (map vr_position (m_vertices ?M)) e))
                       (remdups (vr_edges (m_vertices ?M ! 0)))))
               (of_nat (length (vr_edges (m_vertices ?M ! 0))))"
    by blast+
  from t dc k have c: "count_list (vr_edges (m_vertices ?M ! 0)) (int 2) =
      (if int 0 = low_vertex (m_edges ?M ! 2) \<or> int 0 = high_vertex (m_edges ?M ! 2)
       then length (facesSharing (m_faces ?M) (int 2)) else 0)"
    by blast
  from c have c': "count_list (vr_edges (m_vertices ?M ! 0)) 2 = 2"
    by (simp add: e lists)
  from b have b': "avgEdgeMidOf ?M (map vr_position (m_vertices ?M)) (m_vertices ?M ! 0)
      = (3 / 8, 3 / 8, 0)"
    by (simp add: v mids vsum_def vzero_def)
  from meshToModel_twoTriangles dc u k a b' c' lists show ?thesis
    by (simp add: v)
qed

section \<open>What the step reads of a built model\<close>

lemma vertexFacesFrom_mem:
  "fi \<in> set (vertexFacesFrom b fs v) \<Longrightarrow> int b \<le> fi \<and> nat fi - b < length fs"
proof (induction fs arbitrary: b)
  case Nil
  then show ?case by simp
next
  case (Cons f fs)
  from Cons.prems consider "fi = int b" | "fi \<in> set (vertexFacesFrom (Suc b) fs v)"
    by (auto split: if_splits)
  then show ?case
  proof cases
    case 1
    then show ?thesis by simp
  next
    case 2
    from Cons.IH [OF this] show ?thesis by auto
  qed
qed

lemma pushedEdges_mem:
  "e \<in> set (pushedEdges n vis eis is u) \<Longrightarrow> e \<in> (\<lambda>i. eis ! i) ` set is"
  by (induction "is") (auto simp: pushedEdges_def split: if_splits)

lemma faceSides_mem:
  assumes "e \<in> set (faceSides f u)" and "length (fr_edges f) = 4"
  shows "e \<in> set (faceEdges f)"
proof -
  have "vertexCountOf (fr_isQuad f) \<le> length (fr_edges f)"
    using assms(2) by (simp add: vertexCountOf_def)
  then have "set (faceEdges f) = (!) (fr_edges f) ` {0..<vertexCountOf (fr_isQuad f)}"
    unfolding faceEdges_def by (rule set_take_conv_nth)
  with pushedEdges_mem [OF assms(1) [unfolded faceSides_def]] show ?thesis by simp
qed

lemma meshToModel_vertex_reads:
  assumes "meshToModel mesh = Inr model" and "u < length (m_vertices model)"
  shows "vr_faces (m_vertices model ! u) \<noteq> []" and "vr_edges (m_vertices model ! u) \<noteq> []"
    and "\<forall>fi \<in> set (vr_faces (m_vertices model ! u)).
      0 \<le> fi \<and> nat fi < length (computeFacePoints model)"
    and "\<forall>e \<in> set (vr_edges (m_vertices model ! u)).
      0 \<le> e \<and> nat e < length (m_edges model) \<and>
      vertex_ok model (low_vertex (m_edges model ! nat e)) \<and>
      vertex_ok model (high_vertex (m_edges model ! nat e))"
proof -
  from meshToModel_reads_inv [OF assms(1)]
  have b: "builder_inv model" and fv: "face_vertices_ok model" and ee: "edge_ends_ok model"
    and ex: "vertex_lists_exact model"
    by (simp_all add: reads_inv_def)
  from b have feo: "face_edges_ok model" by (simp add: builder_inv_def)
  from ex assms(2)
  have vf: "vr_faces (m_vertices model ! u) = vertexFaces (m_faces model) (int u)"
    and ne: "vr_faces (m_vertices model ! u) \<noteq> []"
    and ve: "vr_edges (m_vertices model ! u) = vertexEdges (m_faces model) u"
    unfolding vertex_lists_exact_def by blast+
  show "vr_faces (m_vertices model ! u) \<noteq> []" by (rule ne)
  from meshToModel_vertex_lists [OF assms] ne
  show "vr_edges (m_vertices model ! u) \<noteq> []" by auto
  show "\<forall>fi \<in> set (vr_faces (m_vertices model ! u)).
      0 \<le> fi \<and> nat fi < length (computeFacePoints model)"
    using vertexFacesFrom_mem [of _ 0 "m_faces model" "int u"]
    by (auto simp: vf vertexFaces_def computeFacePoints_def)
  show "\<forall>e \<in> set (vr_edges (m_vertices model ! u)).
      0 \<le> e \<and> nat e < length (m_edges model) \<and>
      vertex_ok model (low_vertex (m_edges model ! nat e)) \<and>
      vertex_ok model (high_vertex (m_edges model ! nat e))"
  proof
    fix e
    assume "e \<in> set (vr_edges (m_vertices model ! u))"
    then obtain f where f: "f \<in> set (m_faces model)" and e: "e \<in> set (faceSides f u)"
      by (auto simp: ve vertexEdges_def)
    from fv f have "length (fr_edges f) = 4"
      by (auto simp: face_vertices_ok_def list_all_iff)
    from faceSides_mem [OF e this] feo f have ok: "edge_ok_idx model e"
      by (auto simp: face_edges_ok_def list_all_iff)
    then have "nat e < length (m_edges model)" by (simp add: edge_ok_idx_def)
    with ee have "vertex_ok model (low_vertex (m_edges model ! nat e)) \<and>
      vertex_ok model (high_vertex (m_edges model ! nat e))"
      by (simp add: edge_ends_ok_def list_all_length)
    with ok show "0 \<le> e \<and> nat e < length (m_edges model) \<and>
      vertex_ok model (low_vertex (m_edges model ! nat e)) \<and>
      vertex_ok model (high_vertex (m_edges model ! nat e))"
      by (simp add: edge_ok_idx_def)
  qed
qed

lemma meshToModel_edge_reads:
  assumes "meshToModel mesh = Inr model" and "k < length (m_edges model)"
  shows "face_count (m_edges model ! k) = 1 \<or> face_count (m_edges model ! k) = 2"
    and "vertex_ok model (low_vertex (m_edges model ! k))"
    and "vertex_ok model (high_vertex (m_edges model ! k))"
    and "face_count (m_edges model ! k) = 2 \<longrightarrow>
      0 \<le> er_faces (m_edges model ! k) ! 0 \<and>
      nat (er_faces (m_edges model ! k) ! 0) < length (computeFacePoints model) \<and>
      0 \<le> er_faces (m_edges model ! k) ! 1 \<and>
      nat (er_faces (m_edges model ! k) ! 1) < length (computeFacePoints model)"
proof -
  let ?occ = "incidences (m_faces model) (int k)"
  from meshToModel_reads_inv [OF assms(1)]
  have b: "builder_inv model" and ee: "edge_ends_ok model"
    by (simp_all add: reads_inv_def)
  from b assms(2)
  have ne: "?occ \<noteq> []"
    and sl: "(face_count (m_edges model ! k), er_faces (m_edges model ! k)) = slotsAfter ?occ"
    by (simp_all add: builder_inv_def edge_faces_inv_def)
  from sl have fc: "face_count (m_edges model ! k) = fst (slotsAfter ?occ)"
    and ef: "er_faces (m_edges model ! k) = snd (slotsAfter ?occ)"
    by (metis fst_conv, metis snd_conv)
  show "face_count (m_edges model ! k) = 1 \<or> face_count (m_edges model ! k) = 2"
    unfolding fc by (rule slotsAfter_face_count [OF ne])
  from ee assms(2) show "vertex_ok model (low_vertex (m_edges model ! k))"
    "vertex_ok model (high_vertex (m_edges model ! k))"
    by (simp_all add: edge_ends_ok_def list_all_length)
  show "face_count (m_edges model ! k) = 2 \<longrightarrow>
      0 \<le> er_faces (m_edges model ! k) ! 0 \<and>
      nat (er_faces (m_edges model ! k) ! 0) < length (computeFacePoints model) \<and>
      0 \<le> er_faces (m_edges model ! k) ! 1 \<and>
      nat (er_faces (m_edges model ! k) ! 1) < length (computeFacePoints model)"
  proof
    assume "face_count (m_edges model ! k) = 2"
    then have "2 \<le> length ?occ" by (simp add: fc slotsAfter_def)
    then obtain a c rest where occ: "?occ = a # c # rest"
      by (cases ?occ; cases "tl ?occ") auto
    then have "a \<in> set ?occ" "c \<in> set ?occ" by simp_all
    from incidences_mem [OF this(1)] incidences_mem [OF this(2)]
    show "0 \<le> er_faces (m_edges model ! k) ! 0 \<and>
      nat (er_faces (m_edges model ! k) ! 0) < length (computeFacePoints model) \<and>
      0 \<le> er_faces (m_edges model ! k) ! 1 \<and>
      nat (er_faces (m_edges model ! k) ! 1) < length (computeFacePoints model)"
      by (simp add: ef slotsAfter_def occ computeFacePoints_def)
  qed
qed

section \<open>Edge points\<close>

text \<open>
  Claim C2. The edge point of edge \<open>i\<close> of the model, as the subdivision step computes
  it from the face points: for a boundary edge (\<open>face_count = 1\<close>) the midpoint
  \<open>0.5 * (P0 + P1)\<close> of its two endpoint positions; for an interior edge
  (\<open>face_count = 2\<close>) \<open>0.25 * (P0 + P1 + F0 + F1)\<close>, with \<open>F0\<close> and \<open>F1\<close> the face
  points of its two faces. On a model made by the builder these are all the edges, and the
  endpoints and the two faces read are entries of the vertex list and of the face points.
\<close>

theorem edge_point_rule:
  "i < length (m_edges oldModel) \<longrightarrow>
     (let e = m_edges oldModel ! i;
          P0 = vr_position (m_vertices oldModel ! nat (low_vertex e));
          P1 = vr_position (m_vertices oldModel ! nat (high_vertex e));
          facePoints = computeFacePoints oldModel;
          F0 = facePoints ! nat (er_faces e ! 0);
          F1 = facePoints ! nat (er_faces e ! 1)
      in (face_count e = 1 \<longrightarrow>
            computeEdgePoints oldModel facePoints ! i = smul (1 / 2) (vadd P0 P1)) \<and>
         (face_count e = 2 \<longrightarrow>
            computeEdgePoints oldModel facePoints ! i =
              smul (1 / 4) (vadd (vadd (vadd P0 P1) F0) F1)) \<and>
         (meshToModel mesh = Inr oldModel \<longrightarrow>
            (face_count e = 1 \<or> face_count e = 2) \<and>
            vertex_ok oldModel (low_vertex e) \<and> vertex_ok oldModel (high_vertex e) \<and>
            (face_count e = 2 \<longrightarrow>
               0 \<le> er_faces e ! 0 \<and> nat (er_faces e ! 0) < length facePoints \<and>
               0 \<le> er_faces e ! 1 \<and> nat (er_faces e ! 1) < length facePoints)))"
  using meshToModel_edge_reads [of mesh oldModel i]
  by (simp add: computeEdgePoints_def edgePoint_def Let_def)

lemma facePoints_twoTriangles:
  "computeFacePoints twoTrianglesModel = [(2 / 3, 1 / 3, 0), (1 / 3, 2 / 3, 0)]"
  by (simp add: computeFacePoints_def facePoint_def twoTrianglesModel_def vertexCountOf_def
      upt3 vzero_def)

theorem edge_point_rule_witness:
  "meshToModel twoTriangles = Inr twoTrianglesModel \<and>
   (0::nat) < length (m_edges twoTrianglesModel) \<and>
   face_count (m_edges twoTrianglesModel ! 0) = 1 \<and>
   computeEdgePoints twoTrianglesModel (computeFacePoints twoTrianglesModel) ! 0
     = (1 / 2, 0, 0) \<and>
   (2::nat) < length (m_edges twoTrianglesModel) \<and>
   face_count (m_edges twoTrianglesModel ! 2) = 2 \<and>
   er_faces (m_edges twoTrianglesModel ! 2) = [0, 1] \<and>
   length (computeFacePoints twoTrianglesModel) = 2 \<and>
   computeEdgePoints twoTrianglesModel (computeFacePoints twoTrianglesModel) ! 2
     = (1 / 2, 1 / 2, 0)"
  using edge_point_rule [of 0 twoTrianglesModel twoTriangles]
    edge_point_rule [of 2 twoTrianglesModel twoTriangles] meshToModel_twoTriangles
  by (simp add: facePoints_twoTriangles Let_def) (simp add: twoTrianglesModel_def)

lemma meshToModel_pos_inv: "meshToModel mesh = Inr model \<Longrightarrow> pos_inv model"
  using meshToModel_builder_inv [of mesh model] by (simp add: builder_inv_def)

text \<open>
  Claim C5. In the adjacency model the position map is the index of the vertex positions
  (\<open>pos_inv\<close>): the builder establishes this and every successful move keeps it. On such
  a model the move of a vertex raises exactly when the destination is the current position
  of another vertex. A move that raises inside the subdivision step ends the step with
  that error, and the driver, in whatever iteration it is, returns the error and no mesh.
\<close>

theorem move_raises_iff_collision:
  "(meshToModel mesh = Inr model \<longrightarrow> pos_inv model) \<and>
   (pos_inv model \<and> 0 \<le> i \<and> nat i < length (m_vertices model) \<longrightarrow>
      (fst (moveVertex model i p) = Some TopologyError \<longleftrightarrow>
         (\<exists>j < length (m_vertices model). j \<noteq> nat i \<and> vr_position (m_vertices model ! j) = p)) \<and>
      (fst (moveVertex model i p) \<noteq> Some TopologyError \<longrightarrow>
         fst (moveVertex model i p) = None \<and> pos_inv (snd (moveVertex model i p)))) \<and>
   (moveVertices facePoints oldPositions is model = Inl e \<longrightarrow> e = TopologyError) \<and>
   (moveVertices (computeFacePoints model) (map vr_position (m_vertices model))
       [0..<length (m_vertices model)] model = Inl e \<longrightarrow>
      applyCatmullClarkSubdivisionOnce model = Inl e) \<and>
   (k < n \<and> meshToModel mesh = Inr model \<and> applyCatmullClarkSubdivisionOnce model = Inl e \<longrightarrow>
      subdivisionLoop k n mesh = Inl e) \<and>
   (0 < n \<and> meshToModel mesh = Inr model \<and> applyCatmullClarkSubdivisionOnce model = Inl e \<longrightarrow>
      applyCatmullClarkSubdivision assertions mesh n = Inl e)"
proof (intro conjI impI)
  assume "meshToModel mesh = Inr model"
  then show "pos_inv model" by (rule meshToModel_pos_inv)
next
  assume a: "pos_inv model \<and> 0 \<le> i \<and> nat i < length (m_vertices model)"
  then have ok: "vertex_ok model i" by (simp add: vertex_ok_def)
  from a show "fst (moveVertex model i p) = Some TopologyError \<longleftrightarrow>
         (\<exists>j < length (m_vertices model). j \<noteq> nat i \<and> vr_position (m_vertices model ! j) = p)"
    by (simp add: moveVertex_raises_iff [OF _ ok])
  assume "fst (moveVertex model i p) \<noteq> Some TopologyError"
  then show none: "fst (moveVertex model i p) = None"
    by (cases "fst (moveVertex model i p)") (auto dest: moveVertex_throw_state(2))
  from a ok none show "pos_inv (snd (moveVertex model i p))"
    by (simp add: moveVertex_pos_inv)
next
  assume "moveVertices facePoints oldPositions is model = Inl e"
  then show "e = TopologyError" by (rule moveVertices_failure)
next
  assume "moveVertices (computeFacePoints model) (map vr_position (m_vertices model))
       [0..<length (m_vertices model)] model = Inl e"
  then show "applyCatmullClarkSubdivisionOnce model = Inl e" by (simp add: once_fails_iff)
next
  assume "k < n \<and> meshToModel mesh = Inr model \<and> applyCatmullClarkSubdivisionOnce model = Inl e"
  then show "subdivisionLoop k n mesh = Inl e" by (simp add: subdivisionLoop_fails)
next
  assume "0 < n \<and> meshToModel mesh = Inr model \<and> applyCatmullClarkSubdivisionOnce model = Inl e"
  then show "applyCatmullClarkSubdivision assertions mesh n = Inl e"
    by (simp add: applyCatmullClarkSubdivision_def subdivisionLoop_fails)
qed

lemmas step_defs = computeFacePoints_def facePoint_def computeEdgePoints_def edgePoint_def
  newPositionOf_def avgFacePositionOf_def avgEdgeMidOf_def moveVertex_def vzero_def

lemma built_collinearTriangle: "meshToModel collinearTriangle = Inr (builtModel collinearTriangle)"
  by (simp add: builtModel_def collinearTriangle_def build_defs upt3 upt4)

lemma collinearTriangle_moves:
  "moveVertices (computeFacePoints (builtModel collinearTriangle))
     (map vr_position (m_vertices (builtModel collinearTriangle)))
     [0..<length (m_vertices (builtModel collinearTriangle))] (builtModel collinearTriangle)
   = Inl TopologyError"
  by (simp add: builtModel_def collinearTriangle_def build_defs upt3 upt4 step_defs)

theorem move_raises_iff_collision_witness:
  "meshToModel collinearTriangle = Inr (builtModel collinearTriangle) \<and>
   pos_inv (builtModel collinearTriangle) \<and>
   (1::nat) < length (m_vertices (builtModel collinearTriangle)) \<and>
   vr_position (m_vertices (builtModel collinearTriangle) ! 1) = (5, 0, 0) \<and>
   fst (moveVertex (builtModel collinearTriangle) 0 (5, 0, 0)) = Some TopologyError \<and>
   fst (moveVertex (builtModel collinearTriangle) 0 (7, 0, 0)) = None \<and>
   pos_inv (snd (moveVertex (builtModel collinearTriangle) 0 (7, 0, 0))) \<and>
   applyCatmullClarkSubdivisionOnce (builtModel collinearTriangle) = Inl TopologyError \<and>
   subdivisionLoop 0 1 collinearTriangle = Inl TopologyError \<and>
   applyCatmullClarkSubdivision True collinearTriangle 1 = Inl TopologyError"
proof -
  let ?M = "builtModel collinearTriangle"
  note b = built_collinearTriangle
  note mv = collinearTriangle_moves
  have len: "nat 0 < length (m_vertices ?M)" "(1::nat) < length (m_vertices ?M)"
    and p1: "vr_position (m_vertices ?M ! 1) = (5, 0, 0)"
    by (simp_all add: builtModel_def collinearTriangle_def build_defs upt3 upt4)
  have ex: "\<exists>j < length (m_vertices ?M). j \<noteq> nat 0 \<and> vr_position (m_vertices ?M ! j) = (5, 0, 0)"
    using len p1 by (intro exI [of _ 1]) simp
  have free: "fst (moveVertex ?M 0 (7, 0, 0)) \<noteq> Some TopologyError"
    by (simp add: builtModel_def collinearTriangle_def build_defs upt3 upt4 moveVertex_def)
  note t1 = move_raises_iff_collision [of collinearTriangle ?M 0 "(5, 0, 0)"
      "computeFacePoints ?M" "map vr_position (m_vertices ?M)" "[0..<length (m_vertices ?M)]"
      TopologyError 0 1 True]
  note t2 = move_raises_iff_collision [of collinearTriangle ?M 0 "(7, 0, 0)"
      "computeFacePoints ?M" "map vr_position (m_vertices ?M)" "[0..<length (m_vertices ?M)]"
      TopologyError 0 1 True]
  from t1 b have pi: "pos_inv ?M" by blast
  from t1 pi len ex have r: "fst (moveVertex ?M 0 (5, 0, 0)) = Some TopologyError" by simp
  from t2 pi len free have s: "fst (moveVertex ?M 0 (7, 0, 0)) = None"
    "pos_inv (snd (moveVertex ?M 0 (7, 0, 0)))" by simp_all
  from t1 mv have o: "applyCatmullClarkSubdivisionOnce ?M = Inl TopologyError" by blast
  from t1 b o have l: "subdivisionLoop 0 1 collinearTriangle = Inl TopologyError"
    "applyCatmullClarkSubdivision True collinearTriangle 1 = Inl TopologyError" by simp_all
  from b pi len p1 r s o l show ?thesis by simp
qed

lemma sum_list_uniform:
  fixes f :: "'a \<Rightarrow> rat"
  assumes "\<forall>e \<in> set xs. count_list xs e = k"
  shows "sum_list (map f xs) = of_nat k * sum_list (map f (remdups xs))"
proof -
  have "sum_list (map f xs) = (\<Sum>e \<in> set xs. of_nat (count_list xs e) * f e)"
    by (rule sum_list_count)
  also have "\<dots> = (\<Sum>e \<in> set xs. of_nat k * f e)"
    using assms by (intro sum.cong) simp_all
  also have "\<dots> = of_nat k * (\<Sum>e \<in> set xs. f e)"
    by (simp add: sum_distrib_left)
  also have "(\<Sum>e \<in> set xs. f e) = sum_list (map f (remdups xs))"
    using sum_list_distinct_conv_sum_set [of "remdups xs" f] by simp
  finally show ?thesis .
qed

lemma length_uniform:
  assumes "\<forall>e \<in> set xs. count_list xs e = k"
  shows "length xs = k * length (remdups xs)"
proof -
  have "rat_of_nat (length xs) = of_nat k * of_nat (length (remdups xs))"
    using sum_list_uniform [OF assms, of "\<lambda>_. 1"] by (simp add: sum_list_triv)
  then have "rat_of_nat (length xs) = rat_of_nat (k * length (remdups xs))" by simp
  then show ?thesis by (simp only: of_nat_eq_iff)
qed

lemma vmean_uniform:
  assumes "\<forall>e \<in> set xs. count_list xs e = k" and "0 < k"
  shows "vmean (map g xs) = vmean (map g (remdups xs))"
proof (rule vec_eqI)
  note l = length_uniform [OF assms(1)]
  have k: "rat_of_nat k \<noteq> 0" using assms(2) by simp
  show "vx (vmean (map g xs)) = vx (vmean (map g (remdups xs)))"
    using sum_list_uniform [OF assms(1), of "\<lambda>e. vx (g e)"] k
    by (simp add: vmean_def vsum_sel comp_def l)
  show "vy (vmean (map g xs)) = vy (vmean (map g (remdups xs)))"
    using sum_list_uniform [OF assms(1), of "\<lambda>e. vy (g e)"] k
    by (simp add: vmean_def vsum_sel comp_def l)
  show "vz (vmean (map g xs)) = vz (vmean (map g (remdups xs)))"
    using sum_list_uniform [OF assms(1), of "\<lambda>e. vz (g e)"] k
    by (simp add: vmean_def vsum_sel comp_def l)
qed

lemma vertexRule_uniform:
  assumes "\<forall>e \<in> set (vr_edges (m_vertices model ! i)).
      count_list (vr_edges (m_vertices model ! i)) e = k" and "0 < k"
  shows "vertexRule model i = vertexRuleEdgesOnce model i"
  by (simp add: vertexRule_def vertexRuleEdgesOnce_def Let_def vmean_uniform [OF assms])

text \<open>
  Claim C1, as the code has it. When the third loop of the step has moved every vertex,
  the position of vertex \<open>i\<close> is \<open>m1 * oldPosition + m2 * avgFace + m3 * avgEdgeMidpoint\<close>
  with \<open>n\<close> the length of its incident-face list, \<open>m1 = (n - 3) / n\<close>, \<open>m2 = 1 / n\<close>,
  \<open>m3 = 2 / n\<close>, \<open>avgFace\<close> the mean of the face points over that list and
  \<open>avgEdgeMidpoint\<close> the mean, over its incident-edge list entry by entry, of the
  midpoints of the edges' endpoint positions in the snapshot; all of it is read from the
  model before any move. Where every edge of the list occurs in it the same number of
  times, this is the mean with each edge counted once. On a model made by the builder both
  lists are non-empty and every face, edge and endpoint the rule reads exists.
\<close>

theorem vertex_reposition_rule:
  "(moveVertices (computeFacePoints model) (map vr_position (m_vertices model))
       [0..<length (m_vertices model)] model = Inr moved \<and> i < length (m_vertices model) \<longrightarrow>
      vr_position (m_vertices moved ! i) = vertexRule model i) \<and>
   (0 < k \<and> (\<forall>e \<in> set (vr_edges (m_vertices model ! i)).
        count_list (vr_edges (m_vertices model ! i)) e = k) \<longrightarrow>
      vertexRule model i = vertexRuleEdgesOnce model i) \<and>
   (meshToModel mesh = Inr model \<and> i < length (m_vertices model) \<longrightarrow>
      vr_faces (m_vertices model ! i) \<noteq> [] \<and> vr_edges (m_vertices model ! i) \<noteq> [] \<and>
      (\<forall>fi \<in> set (vr_faces (m_vertices model ! i)).
         0 \<le> fi \<and> nat fi < length (computeFacePoints model)) \<and>
      (\<forall>e \<in> set (vr_edges (m_vertices model ! i)).
         0 \<le> e \<and> nat e < length (m_edges model) \<and>
         vertex_ok model (low_vertex (m_edges model ! nat e)) \<and>
         vertex_ok model (high_vertex (m_edges model ! nat e))))"
proof (intro conjI impI)
  assume "moveVertices (computeFacePoints model) (map vr_position (m_vertices model))
       [0..<length (m_vertices model)] model = Inr moved \<and> i < length (m_vertices model)"
  then show "vr_position (m_vertices moved ! i) = vertexRule model i"
    by (simp add: moveVertices_vertexRule)
next
  assume "0 < k \<and> (\<forall>e \<in> set (vr_edges (m_vertices model ! i)).
        count_list (vr_edges (m_vertices model ! i)) e = k)"
  then show "vertexRule model i = vertexRuleEdgesOnce model i"
    by (blast intro: vertexRule_uniform)
next
  assume "meshToModel mesh = Inr model \<and> i < length (m_vertices model)"
  then have b: "meshToModel mesh = Inr model" and i: "i < length (m_vertices model)"
    by simp_all
  show "vr_faces (m_vertices model ! i) \<noteq> []" "vr_edges (m_vertices model ! i) \<noteq> []"
    "\<forall>fi \<in> set (vr_faces (m_vertices model ! i)).
         0 \<le> fi \<and> nat fi < length (computeFacePoints model)"
    "\<forall>e \<in> set (vr_edges (m_vertices model ! i)).
         0 \<le> e \<and> nat e < length (m_edges model) \<and>
         vertex_ok model (low_vertex (m_edges model ! nat e)) \<and>
         vertex_ok model (high_vertex (m_edges model ! nat e))"
    by (rule meshToModel_vertex_reads [OF b i])+
qed

lemmas tetra_eval = builtModel_def tetrahedron_def build_defs upt3 upt4

lemma built_tetrahedron: "meshToModel tetrahedron = Inr (builtModel tetrahedron)"
  by (simp add: tetra_eval)

lemma tetrahedron_vertices:
  "m_vertices (builtModel tetrahedron) =
    [\<lparr>vr_position = (0, 0, 0), vr_edges = [0, 2, 2, 4, 4, 0], vr_faces = [0, 1, 2]\<rparr>,
     \<lparr>vr_position = (0, 1, 0), vr_edges = [0, 1, 5, 0, 1, 5], vr_faces = [0, 2, 3]\<rparr>,
     \<lparr>vr_position = (1, 0, 0), vr_edges = [1, 2, 2, 3, 1, 3], vr_faces = [0, 1, 3]\<rparr>,
     \<lparr>vr_position = (0, 0, 1), vr_edges = [3, 4, 4, 5, 5, 3], vr_faces = [1, 2, 3]\<rparr>]"
  by (simp add: tetra_eval)

lemma tetrahedron_moves:
  "moveVertices (computeFacePoints (builtModel tetrahedron))
     (map vr_position (m_vertices (builtModel tetrahedron)))
     [0..<length (m_vertices (builtModel tetrahedron))] (builtModel tetrahedron)
   = Inr (movedModel (builtModel tetrahedron))"
proof -
  let ?r = "moveVertices (computeFacePoints (builtModel tetrahedron))
     (map vr_position (m_vertices (builtModel tetrahedron)))
     [0..<length (m_vertices (builtModel tetrahedron))] (builtModel tetrahedron)"
  have ne: "?r \<noteq> Inl e" for e
    by (simp add: tetra_eval step_defs)
  show ?thesis
  proof (cases ?r)
    case (Inl a)
    with ne [of a] show ?thesis by simp
  next
    case (Inr m)
    then show ?thesis by (simp add: movedModel_def)
  qed
qed

theorem vertex_reposition_rule_witness:
  "meshToModel tetrahedron = Inr (builtModel tetrahedron) \<and>
   vr_edges (m_vertices (builtModel tetrahedron) ! 0) = [0, 2, 2, 4, 4, 0] \<and>
   vr_position (m_vertices (movedModel (builtModel tetrahedron)) ! 0) = (5 / 27, 5 / 27, 5 / 27) \<and>
   vertexRule (builtModel tetrahedron) 0 = (5 / 27, 5 / 27, 5 / 27) \<and>
   vertexRuleEdgesOnce (builtModel tetrahedron) 0 = (5 / 27, 5 / 27, 5 / 27)"
proof -
  let ?M = "builtModel tetrahedron"
  have i: "(0::nat) < length (m_vertices ?M)" by (simp add: tetrahedron_vertices)
  have es: "vr_edges (m_vertices ?M ! 0) = [0, 2, 2, 4, 4, 0]" by (simp add: tetrahedron_vertices)
  have u: "0 < (2::nat) \<and> (\<forall>e \<in> set (vr_edges (m_vertices ?M ! 0)).
        count_list (vr_edges (m_vertices ?M ! 0)) e = 2)"
    by (simp add: es)
  have once: "vertexRuleEdgesOnce ?M 0 = (5 / 27, 5 / 27, 5 / 27)"
    by (simp add: vertexRuleEdgesOnce_def Let_def tetra_eval step_defs vmean_def vsum_def edgeMid_def)
  from vertex_reposition_rule [of ?M "movedModel ?M" 0 2 tetrahedron] tetrahedron_moves i u
  have "vr_position (m_vertices (movedModel ?M) ! 0) = vertexRule ?M 0"
    and "vertexRule ?M 0 = vertexRuleEdgesOnce ?M 0"
    by blast+
  with built_tetrahedron es once show ?thesis by simp
qed

text \<open>
  Vertex 0 of the split square lies on two boundary edges, which occur once in its edge
  list, and on the diagonal, which occurs twice: the step moves it to \<open>(5/8, 5/8, 0)\<close>,
  the rule with every edge counted once gives \<open>(7/12, 7/12, 0)\<close>.
\<close>

theorem vertex_reposition_counterexample:
  "meshToModel twoTriangles = Inr twoTrianglesModel \<and>
   movedPosition twoTrianglesModel 0 = Some (5 / 8, 5 / 8, 0) \<and>
   vertexRuleEdgesOnce twoTrianglesModel 0 = (7 / 12, 7 / 12, 0)"
  by (simp add: meshToModel_twoTriangles)
    (simp add: movedPosition_def vertexRuleEdgesOnce_def Let_def twoTrianglesModel_def
      vertexCountOf_def upt3 upt4 step_defs vmean_def vsum_def edgeMid_def)

lemma cornerCounts_mesh:
  assumes "meshToModel mesh = Inr model"
  shows "cornerCounts model = map (\<lambda>f. vertexCountOf (isQuad f)) (faces mesh)"
proof -
  have "cornerCounts model = map vertexCountOf (map fr_isQuad (m_faces model))"
    by (simp add: cornerCounts_def)
  also have "\<dots> = map vertexCountOf (map isQuad (faces mesh))"
    by (simp only: meshToModel_isQuad [OF assms])
  finally show ?thesis by simp
qed

lemma movedModel_faces [simp]: "m_faces (movedModel model) = m_faces model"
proof (cases "moveVertices (computeFacePoints model) (map vr_position (m_vertices model))
    [0..<length (m_vertices model)] model")
  case (Inl e)
  then show ?thesis by (simp add: movedModel_def)
next
  case (Inr moved)
  from moveVertices_positions [OF Inr distinct_upt, of model] Inr show ?thesis
    by (simp add: movedModel_def)
qed

lemma length_concat_faceOutputVertices:
  "length (concat (map (faceOutputVertices moved fp ep) [0..<length (m_faces model)])) =
     sum_list (map (\<lambda>fi. 2 * vertexCountOf (fr_isQuad (m_faces moved ! fi)) + 1)
       [0..<length (m_faces model)])"
  by (simp add: length_concat comp_def length_faceOutputVertices)

text \<open>
  Claim C3. One pass over the mesh gives, for every face of the mesh in order, one quad
  per corner (4 for a quad, 3 for a triangle, each tagged as a quad) and \<open>2n + 1\<close> new
  vertices: the \<open>n\<close> corners, the \<open>n\<close> edge points in cyclic order (edge \<open>i\<close> joins
  corner \<open>i\<close> and the corner after it) and the face point. The vertex list of the output
  is the concatenation of these blocks, nothing being shared between faces, and the quad of
  corner \<open>i\<close> lists (edge point before the corner, corner, edge point after it, face
  point).
\<close>

theorem subdivision_output_layout:
  "meshToModel mesh = Inr model \<and> applyCatmullClarkSubdivisionOnce model = Inr newMesh \<longrightarrow>
     map fr_isQuad (m_faces model) = map isQuad (faces mesh) \<and>
     vertices newMesh =
       concat (map (faceOutputVertices (movedModel model) (computeFacePoints model)
                      (computeEdgePoints model (computeFacePoints model)))
                 [0..<length (faces mesh)]) \<and>
     faces newMesh = outputFaces 0 (map (\<lambda>f. vertexCountOf (isQuad f)) (faces mesh)) \<and>
     list_all isQuad (faces newMesh) \<and>
     length (faces newMesh) = sum_list (map (\<lambda>f. vertexCountOf (isQuad f)) (faces mesh)) \<and>
     length (vertices newMesh) = sum_list (map (\<lambda>f. 2 * vertexCountOf (isQuad f) + 1) (faces mesh)) \<and>
     (\<forall>f \<in> set (m_faces model). \<forall>i < vertexCountOf (fr_isQuad f).
        0 \<le> fr_edges f ! i \<and> nat (fr_edges f ! i) < length (m_edges model) \<and>
        endpoints (m_edges model ! nat (fr_edges f ! i)) =
          sortedPair (fr_vertices f ! i, fr_vertices f ! ((i + 1) mod vertexCountOf (fr_isQuad f))))"
proof (intro impI)
  assume a: "meshToModel mesh = Inr model \<and> applyCatmullClarkSubdivisionOnce model = Inr newMesh"
  then have built: "meshToModel mesh = Inr model"
    and once: "applyCatmullClarkSubdivisionOnce model = Inr newMesh" by simp_all
  from meshToModel_builder_inv [OF built]
  have pi: "pair_inv model" and fpi: "face_pairs_inv model" by (simp_all add: builder_inv_def)
  note q = meshToModel_isQuad [OF built]
  have len: "length (m_faces model) = length (faces mesh)"
    using q by (rule map_eq_imp_length_eq)
  note cc = cornerCounts_mesh [OF built]
  note o = once_output [OF once fpi]
  have v: "vertices newMesh =
       concat (map (faceOutputVertices (movedModel model) (computeFacePoints model)
                      (computeEdgePoints model (computeFacePoints model)))
                 [0..<length (faces mesh)])"
    using o(1) by (simp add: len)
  have f: "faces newMesh = outputFaces 0 (map (\<lambda>f. vertexCountOf (isQuad f)) (faces mesh))"
    using o(2) by (simp add: cc)
  have lf: "length (faces newMesh) = sum_list (map (\<lambda>f. vertexCountOf (isQuad f)) (faces mesh))"
    by (simp add: f length_outputFaces)
  have "length (vertices newMesh) = sum_list (map (\<lambda>n. 2 * n + 1) (cornerCounts model))"
  proof -
    have "map (\<lambda>n. 2 * n + 1) (cornerCounts model) =
        map (\<lambda>fi. 2 * vertexCountOf (fr_isQuad (m_faces model ! fi)) + 1) [0..<length (m_faces model)]"
      unfolding cornerCounts_def by (rule nth_equalityI) simp_all
    then show ?thesis
      by (simp add: o(1) length_concat comp_def length_faceOutputVertices)
  qed
  then have lv: "length (vertices newMesh) =
      sum_list (map (\<lambda>f. 2 * vertexCountOf (isQuad f) + 1) (faces mesh))"
    by (simp add: cc comp_def)
  have e: "\<forall>f \<in> set (m_faces model). \<forall>i < vertexCountOf (fr_isQuad f).
        0 \<le> fr_edges f ! i \<and> nat (fr_edges f ! i) < length (m_edges model) \<and>
        endpoints (m_edges model ! nat (fr_edges f ! i)) =
          sortedPair (fr_vertices f ! i, fr_vertices f ! ((i + 1) mod vertexCountOf (fr_isQuad f)))"
    using face_edge_joins_corners [OF pi fpi] by blast
  from q v f lf lv e outputFaces_isQuad [of 0 "map (\<lambda>f. vertexCountOf (isQuad f)) (faces mesh)"]
  show "map fr_isQuad (m_faces model) = map isQuad (faces mesh) \<and>
     vertices newMesh =
       concat (map (faceOutputVertices (movedModel model) (computeFacePoints model)
                      (computeEdgePoints model (computeFacePoints model)))
                 [0..<length (faces mesh)]) \<and>
     faces newMesh = outputFaces 0 (map (\<lambda>f. vertexCountOf (isQuad f)) (faces mesh)) \<and>
     list_all isQuad (faces newMesh) \<and>
     length (faces newMesh) = sum_list (map (\<lambda>f. vertexCountOf (isQuad f)) (faces mesh)) \<and>
     length (vertices newMesh) = sum_list (map (\<lambda>f. 2 * vertexCountOf (isQuad f) + 1) (faces mesh)) \<and>
     (\<forall>f \<in> set (m_faces model). \<forall>i < vertexCountOf (fr_isQuad f).
        0 \<le> fr_edges f ! i \<and> nat (fr_edges f ! i) < length (m_edges model) \<and>
        endpoints (m_edges model ! nat (fr_edges f ! i)) =
          sortedPair (fr_vertices f ! i, fr_vertices f ! ((i + 1) mod vertexCountOf (fr_isQuad f))))"
    by simp
qed

lemmas quadtri_eval = builtModel_def quadAndTriangle_def build_defs upt3 upt4

lemma built_quadAndTriangle: "meshToModel quadAndTriangle = Inr (builtModel quadAndTriangle)"
  by (simp add: quadtri_eval)

lemma once_success:
  assumes "\<And>e. moveVertices (computeFacePoints model) (map vr_position (m_vertices model))
      [0..<length (m_vertices model)] model \<noteq> Inl e"
  shows "applyCatmullClarkSubdivisionOnce model = Inr (subdividedOnce model)"
proof (cases "moveVertices (computeFacePoints model) (map vr_position (m_vertices model))
      [0..<length (m_vertices model)] model")
  case (Inl a)
  with assms [of a] show ?thesis by simp
next
  case (Inr moved)
  then show ?thesis
    by (simp add: subdividedOnce_def applyCatmullClarkSubdivisionOnce_def Let_def)
qed

lemma once_quadAndTriangle:
  "applyCatmullClarkSubdivisionOnce (builtModel quadAndTriangle) =
     Inr (subdividedOnce (builtModel quadAndTriangle))"
  by (rule once_success) (simp add: quadtri_eval step_defs)

theorem subdivision_output_layout_witness:
  "meshToModel quadAndTriangle = Inr (builtModel quadAndTriangle) \<and>
   applyCatmullClarkSubdivisionOnce (builtModel quadAndTriangle) =
     Inr (subdividedOnce (builtModel quadAndTriangle)) \<and>
   faces (subdividedOnce (builtModel quadAndTriangle)) =
     [mkFace 7 0 4 8, mkFace 4 1 5 8, mkFace 5 2 6 8, mkFace 6 3 7 8,
      mkFace 14 9 12 15, mkFace 12 10 13 15, mkFace 13 11 14 15] \<and>
   length (vertices (subdividedOnce (builtModel quadAndTriangle))) = 16"
proof -
  let ?M = "builtModel quadAndTriangle"
  from subdivision_output_layout [of quadAndTriangle ?M "subdividedOnce ?M"]
    built_quadAndTriangle once_quadAndTriangle
  have "faces (subdividedOnce ?M) =
      outputFaces 0 (map (\<lambda>f. vertexCountOf (isQuad f)) (faces quadAndTriangle))"
    and "length (vertices (subdividedOnce ?M)) =
      sum_list (map (\<lambda>f. 2 * vertexCountOf (isQuad f) + 1) (faces quadAndTriangle))"
    by blast+
  then show ?thesis
    using built_quadAndTriangle once_quadAndTriangle
    by (simp add: quadAndTriangle_def vertexCountOf_def faceOutputFaces_def cornerQuad_def
        mkFace_def upt3 upt4)
qed

text \<open>
  Claim C7. The model the builder makes of a well-formed mesh depends on the corner
  positions of its faces only: two well-formed meshes with the same corner positions give
  the same result, records, indices and maps alike. Merging the vertices that share a
  position, with the face indices rewritten, gives a well-formed mesh with the same corner
  positions and no position twice, hence the same model.
\<close>

theorem builder_reads_corner_positions:
  "(wellFormed mesh \<and> wellFormed mesh' \<and> cornerPositions mesh = cornerPositions mesh' \<longrightarrow>
      meshToModel mesh = meshToModel mesh') \<and>
   (wellFormed mesh \<longrightarrow>
      wellFormed (mergeCoincident mesh) \<and>
      distinct (map position (vertices (mergeCoincident mesh))) \<and>
      cornerPositions (mergeCoincident mesh) = cornerPositions mesh \<and>
      meshToModel (mergeCoincident mesh) = meshToModel mesh)"
proof (intro conjI impI)
  assume "wellFormed mesh \<and> wellFormed mesh' \<and> cornerPositions mesh = cornerPositions mesh'"
  then show "meshToModel mesh = meshToModel mesh'"
    by (simp add: meshToModel_cornerPositions)
next
  assume wf: "wellFormed mesh"
  show wf': "wellFormed (mergeCoincident mesh)"
    by (rule mergeCoincident_wellFormed [OF wf])
  show "distinct (map position (vertices (mergeCoincident mesh)))"
    by (rule mergeCoincident_distinct)
  show cp: "cornerPositions (mergeCoincident mesh) = cornerPositions mesh"
    by (rule mergeCoincident_cornerPositions [OF wf])
  show "meshToModel (mergeCoincident mesh) = meshToModel mesh"
    by (rule meshToModel_cornerPositions [OF wf' wf cp])
qed

lemma mergeCoincident_soup:
  "mergeCoincident twoTrianglesSoup =
     \<lparr>vertices = map mkVertex [(1, 0, 0), (0, 0, 0), (1, 1, 0), (0, 1, 0)],
      faces = [\<lparr>isQuad = False, indices = [1, 0, 2, 1]\<rparr>,
               \<lparr>isQuad = False, indices = [1, 2, 3, 1]\<rparr>]\<rparr>"
  by (simp add: mergeCoincident_def twoTrianglesSoup_def mkVertex_def Let_def)

theorem builder_reads_corner_positions_witness:
  "wellFormed twoTrianglesSoup \<and> wellFormed twoTriangles \<and>
   cornerPositions twoTrianglesSoup = cornerPositions twoTriangles \<and>
   length (vertices twoTrianglesSoup) = 6 \<and>
   length (vertices (mergeCoincident twoTrianglesSoup)) = 4 \<and>
   meshToModel (mergeCoincident twoTrianglesSoup) = Inr twoTrianglesModel \<and>
   meshToModel twoTrianglesSoup = Inr twoTrianglesModel"
proof -
  have wf: "wellFormed twoTrianglesSoup" "wellFormed twoTriangles"
    by (simp_all add: wellFormed_def twoTrianglesSoup_def twoTriangles_def vertexCountOf_def upt3)
  have cp: "cornerPositions twoTrianglesSoup = cornerPositions twoTriangles"
    by (simp add: cornerPositions_def twoTrianglesSoup_def twoTriangles_def vertexCountOf_def upt3
        mkVertex_def)
  from builder_reads_corner_positions [of twoTrianglesSoup twoTriangles] wf cp
  have "meshToModel twoTrianglesSoup = meshToModel twoTriangles"
    and "meshToModel (mergeCoincident twoTrianglesSoup) = meshToModel twoTrianglesSoup"
    by blast+
  with wf cp show ?thesis
    by (simp add: meshToModel_twoTriangles mergeCoincident_soup) (simp add: twoTrianglesSoup_def)
qed

end
